theory Spec2Isabelle
  imports Complex_Main "HOL-Library.Word" "HOL-Library.Multiset" "HOL-Library.AList" "HOL-Library.Log_Nat"
begin

section \<open>JavaScript strings\<close>

text \<open>
  A JavaScript string is a sequence of UTF-16 code units. Every Hiragana
  character (U+3040 to U+309F) and every punctuation mark used by the
  application is a single code unit.
\<close>

type_synonym jschar = "16 word"
type_synonym jsstring = "jschar list"

text \<open>
  The regular-expression class \<^verbatim>\<open>\s\<close>, which is also the set of code
  units removed by \<^verbatim>\<open>String.prototype.trim\<close> (WhiteSpace and
  LineTerminator of ECMAScript).
\<close>

definition isWhiteSpace :: "jschar \<Rightarrow> bool" where
  "isWhiteSpace c =
     (c = 0x0009 \<or> c = 0x000A \<or> c = 0x000B \<or> c = 0x000C \<or> c = 0x000D \<or>
      c = 0x0020 \<or> c = 0x00A0 \<or> c = 0x1680 \<or> (0x2000 \<le> c \<and> c \<le> 0x200A) \<or>
      c = 0x2028 \<or> c = 0x2029 \<or> c = 0x202F \<or> c = 0x205F \<or> c = 0x3000 \<or>
      c = 0xFEFF)"

text \<open>\<^verbatim>\<open>text.trim()\<close>: white space is removed at both ends.\<close>

definition trim :: "jsstring \<Rightarrow> jsstring" where
  "trim text = rev (dropWhile isWhiteSpace (rev (dropWhile isWhiteSpace text)))"

text \<open>
  \<^verbatim>\<open>text.replace(/[...]/g, replacement)\<close> for a character class: every
  code unit of the class is replaced, all others are kept.
\<close>

definition replace_class_g :: "(jschar \<Rightarrow> bool) \<Rightarrow> jsstring \<Rightarrow> jsstring \<Rightarrow> jsstring" where
  "replace_class_g cls replacement text =
     concat (map (\<lambda>c. if cls c then replacement else [c]) text)"

section \<open>Answer normalisation\<close>

text \<open>The class of the first replacement of both screens: \<^verbatim>\<open>\s\<close> and U+3000.\<close>

definition space_class :: "jschar \<Rightarrow> bool" where
  "space_class c = (isWhiteSpace c \<or> c = 0x3000)"

text \<open>
  The class of the writing screen's second replacement: the ideographic comma
  U+3001, the ideographic full stop U+3002, the full-width exclamation mark
  U+FF01, the full-width question mark U+FF1F, and the ASCII characters
  full stop, comma, exclamation mark and question mark.
\<close>

definition punctuation :: "jschar list" where
  "punctuation = [0x3001, 0x3002, 0xFF01, 0xFF1F, 0x002E, 0x002C, 0x0021, 0x003F]"

definition punctuation_class :: "jschar \<Rightarrow> bool" where
  "punctuation_class c = (c \<in> set punctuation)"

text \<open>\<^verbatim>\<open>normalizeJapanese\<close> of the writing screen.\<close>

definition normalizeJapanese_writing :: "jsstring \<Rightarrow> jsstring" where
  "normalizeJapanese_writing text =
     trim (replace_class_g punctuation_class [] (replace_class_g space_class [] text))"

text \<open>\<^verbatim>\<open>normalizeJapanese\<close> of the visual quiz screen.\<close>

definition normalizeJapanese_visual :: "jsstring \<Rightarrow> jsstring" where
  "normalizeJapanese_visual text = trim (replace_class_g space_class [] text)"

text \<open>The comparison of \<^verbatim>\<open>handleReveal\<close> (writing screen).\<close>

definition isCorrect_writing :: "jsstring \<Rightarrow> jsstring \<Rightarrow> bool" where
  "isCorrect_writing userDraft hiragana =
     (let normalizedInput = normalizeJapanese_writing userDraft;
          normalizedAnswer = normalizeJapanese_writing hiragana
      in normalizedInput = normalizedAnswer)"

text \<open>The comparison of \<^verbatim>\<open>handleSubmit\<close> (visual quiz screen).\<close>

definition isCorrect_visual :: "jsstring \<Rightarrow> jsstring \<Rightarrow> bool" where
  "isCorrect_visual userInput targetWord =
     (normalizeJapanese_visual userInput = normalizeJapanese_visual targetWord)"

section \<open>Vocabulary analysis\<close>

text \<open>
  A JavaScript \<^verbatim>\<open>Set\<close> keeps its elements in insertion order;
  \<^verbatim>\<open>add\<close> of an element already present changes nothing.
  \<^verbatim>\<open>Array.from(new Set(xs))\<close> is therefore \<open>new_Set xs\<close>.
\<close>

definition Set_add :: "'a list \<Rightarrow> 'a \<Rightarrow> 'a list" where
  "Set_add s x = (if x \<in> set s then s else s @ [x])"

definition new_Set :: "'a list \<Rightarrow> 'a list" where
  "new_Set xs = foldl Set_add [] xs"

text \<open>
  \<^verbatim>\<open>text.split(/[\s\n]+/)\<close>. The class is \<^verbatim>\<open>\s\<close> (the line feed
  is a member already). \<open>cur\<close> is the substring since the end of the last
  match; a match is a maximal run of separators; the rest of the string after
  the last match is always pushed, so the empty string splits into one
  empty piece.
\<close>

function split_loop :: "jsstring \<Rightarrow> jsstring \<Rightarrow> jsstring list" where
  "split_loop cur [] = [cur]"
| "split_loop cur (c # cs) =
     (if isWhiteSpace c then cur # split_loop [] (dropWhile isWhiteSpace cs)
      else split_loop (cur @ [c]) cs)"
  by pat_completeness auto
termination
  by (relation "measure (\<lambda>(cur, rest). length rest)")
     (auto simp: length_dropWhile_le less_Suc_eq_le)

definition split_ws :: "jsstring \<Rightarrow> jsstring list" where
  "split_ws text = split_loop [] text"

text \<open>\<^verbatim>\<open>parseWords\<close> of \<^verbatim>\<open>handleStartPractice\<close>.\<close>

definition parseWords :: "jsstring \<Rightarrow> jsstring list" where
  "parseWords text = new_Set (filter (\<lambda>w. length w > 0) (split_ws (trim text)))"

text \<open>
  \<^verbatim>\<open>for (const char of w)\<close> iterates over code points: a high surrogate
  followed by a low surrogate is one two-unit string, every other code unit is
  a one-unit string.
\<close>

definition isHighSurrogate :: "jschar \<Rightarrow> bool" where
  "isHighSurrogate c = (0xD800 \<le> c \<and> c \<le> 0xDBFF)"

definition isLowSurrogate :: "jschar \<Rightarrow> bool" where
  "isLowSurrogate c = (0xDC00 \<le> c \<and> c \<le> 0xDFFF)"

fun codePoints :: "jsstring \<Rightarrow> jsstring list" where
  "codePoints [] = []"
| "codePoints [c] = [[c]]"
| "codePoints (c # d # cs) =
     (if isHighSurrogate c \<and> isLowSurrogate d then [c, d] # codePoints cs
      else [c] # codePoints (d # cs))"

text \<open>
  \<^verbatim>\<open>char.match\<close> with the class from U+3040 to U+309F is not null when some code unit of
  \<open>char\<close> lies in the Hiragana block.
\<close>

definition hiragana_range :: "jschar \<Rightarrow> bool" where
  "hiragana_range c = (0x3040 \<le> c \<and> c \<le> 0x309F)"

definition match_hiragana :: "jsstring \<Rightarrow> bool" where
  "match_hiragana char = list_ex hiragana_range char"

record AnalyzedVocabulary =
  validHiraganaWords :: "jsstring list"
  learningWords :: "jsstring list"
  allowedCharacters :: "jsstring list"

text \<open>The loop of \<^verbatim>\<open>handleStartPractice\<close> that fills the set \<^verbatim>\<open>chars\<close>.\<close>

definition collect_chars :: "jsstring list \<Rightarrow> jsstring list" where
  "collect_chars allValidWords =
     foldl (\<lambda>chars w.
              foldl (\<lambda>chars char. if match_hiragana char then Set_add chars char else chars)
                chars (codePoints w))
       [] allValidWords"

text \<open>
  \<^verbatim>\<open>handleStartPractice\<close>: the value passed to \<^verbatim>\<open>setAnalyzedData\<close>,
  from the two text inputs (the state variables \<^verbatim>\<open>knownWords\<close> and
  \<^verbatim>\<open>learningWords\<close>).
\<close>

definition handleStartPractice :: "jsstring \<Rightarrow> jsstring \<Rightarrow> AnalyzedVocabulary" where
  "handleStartPractice knownWordsText learningWordsText =
     (let validKnown = parseWords knownWordsText;
          validLearning = parseWords learningWordsText;
          allValidWords = new_Set (validKnown @ validLearning);
          chars = collect_chars allValidWords
      in \<lparr> validHiraganaWords = allValidWords,
           learningWords = validLearning,
           allowedCharacters = chars \<rparr>)"

text \<open>
  The specification's words for the tokens of an input: the non-empty maximal
  runs of code units that are not white space.
\<close>

definition tokens :: "jsstring \<Rightarrow> jsstring set" where
  "tokens t = {w. w \<noteq> [] \<and> (\<forall>c\<in>set w. \<not> isWhiteSpace c) \<and>
     (\<exists>pre post. t = pre @ w @ post \<and> (pre = [] \<or> isWhiteSpace (last pre)) \<and>
        (post = [] \<or> isWhiteSpace (hd post)))}"

section \<open>JavaScript numbers\<close>

text \<open>
  A JavaScript number is an IEEE 754 double: a real number of the binary64
  format, or one of NaN, Infinity and -Infinity. (The sign of zero is left
  out: nothing below can tell the two zeros apart.) Arithmetic gives the
  double nearest to the exact result, ties going to the even significand.
\<close>

datatype jsnum = Fin real | NaN | PosInf | NegInf

definition pow2 :: "int \<Rightarrow> real" where
  "pow2 e = (if 0 \<le> e then 2 ^ nat e else 1 / 2 ^ nat (- e))"

text \<open>For \<open>0 < x\<close>, the exponent \<open>e\<close> with \<open>2\<^sup>e \<le> x < 2\<^sup>e\<^sup>+\<^sup>1\<close>.\<close>

definition floor_log2 :: "real \<Rightarrow> int" where
  "floor_log2 x = (if 1 \<le> x then bitlen \<lfloor>x\<rfloor> - 1 else - bitlen (\<lceil>1 / x\<rceil> - 1))"

definition round_half_even :: "real \<Rightarrow> int" where
  "round_half_even q =
     (let f = \<lfloor>q\<rfloor>; d = q - of_int f
      in if d < 1 / 2 then f else if 1 / 2 < d then f + 1 else if even f then f else f + 1)"

text \<open>
  Rounding to binary64: 53 significant bits, the least exponent of a unit in
  the last place is -1074, and a result of magnitude \<open>2\<^sup>1\<^sup>0\<^sup>2\<^sup>4\<close> or more
  is infinite.
\<close>

definition round64 :: "real \<Rightarrow> jsnum" where
  "round64 x =
     (if x = 0 then Fin 0
      else (let a = \<bar>x\<bar>;
                e = max (floor_log2 a - 52) (- 1074);
                m = round_half_even (a / pow2 e);
                r = of_int m * pow2 e
            in if pow2 1024 \<le> r then (if 0 < x then PosInf else NegInf)
               else Fin (if 0 < x then r else - r)))"

fun num_add :: "jsnum \<Rightarrow> jsnum \<Rightarrow> jsnum" where
  "num_add (Fin a) (Fin b) = round64 (a + b)"
| "num_add NaN _ = NaN"
| "num_add _ NaN = NaN"
| "num_add PosInf NegInf = NaN"
| "num_add NegInf PosInf = NaN"
| "num_add PosInf _ = PosInf"
| "num_add _ PosInf = PosInf"
| "num_add NegInf _ = NegInf"
| "num_add _ NegInf = NegInf"

fun num_neg :: "jsnum \<Rightarrow> jsnum" where
  "num_neg (Fin a) = Fin (- a)"
| "num_neg NaN = NaN"
| "num_neg PosInf = NegInf"
| "num_neg NegInf = PosInf"

definition num_sub :: "jsnum \<Rightarrow> jsnum \<Rightarrow> jsnum" where
  "num_sub a b = num_add a (num_neg b)"

text \<open>\<^verbatim>\<open>a === b\<close> on numbers: NaN equals nothing.\<close>

fun num_equal :: "jsnum \<Rightarrow> jsnum \<Rightarrow> bool" where
  "num_equal NaN _ = False"
| "num_equal _ NaN = False"
| "num_equal a b = (a = b)"

text \<open>\<^verbatim>\<open>0 < a\<close> on numbers.\<close>

fun num_positive :: "jsnum \<Rightarrow> bool" where
  "num_positive (Fin a) = (0 < a)"
| "num_positive PosInf = True"
| "num_positive _ = False"

section \<open>JavaScript values and plain objects\<close>

text \<open>A string of ASCII characters as code units.\<close>

definition jsstr :: "string \<Rightarrow> jsstring" where
  "jsstr s = map (\<lambda>c. of_nat (of_char c)) s"

text \<open>
  The primitive values that the program stores in an object, and the values
  that reading a property can give: a stored primitive, a member inherited
  from \<^verbatim>\<open>Object.prototype\<close> (named by its property name), or
  \<^verbatim>\<open>undefined\<close>.
\<close>

datatype jsprim = Num jsnum | Str jsstring

datatype jsvalue = Prim jsprim | Member jsstring | Undefined

text \<open>
  What the runtime decides and the program does not: the text of an inherited
  member when it is converted to a string (in V8
  \<^verbatim>\<open>function Object() { [native code] }\<close> for \<^verbatim>\<open>constructor\<close>), the conversion
  of a number to a string, and the conversion of a string to a number.
\<close>

record runtime =
  member_text :: "jsstring \<Rightarrow> jsstring"
  number_text :: "jsnum \<Rightarrow> jsstring"
  string_number :: "jsstring \<Rightarrow> jsnum"

text \<open>
  A plain object (\<^verbatim>\<open>{}\<close>, \<^verbatim>\<open>{ ...obj }\<close>, the result of
  \<^verbatim>\<open>JSON.parse\<close>) is the list of its own properties, in the order of
  \<^verbatim>\<open>Object.entries\<close>; its prototype is \<^verbatim>\<open>Object.prototype\<close>.
\<close>

type_synonym 'v jsobject = "(jsstring \<times> 'v) list"

text \<open>The property names of \<^verbatim>\<open>Object.prototype\<close>.\<close>

definition Object_prototype_names :: "jsstring list" where
  "Object_prototype_names =
     map jsstr [''constructor'', ''__defineGetter__'', ''__defineSetter__'', ''hasOwnProperty'',
       ''__lookupGetter__'', ''__lookupSetter__'', ''isPrototypeOf'', ''propertyIsEnumerable'',
       ''toString'', ''valueOf'', ''__proto__'', ''toLocaleString'']"

text \<open>
  \<^verbatim>\<open>obj[key]\<close>: the own property, else the inherited member (for
  \<^verbatim>\<open>__proto__\<close> the prototype object itself), else \<^verbatim>\<open>undefined\<close>.
\<close>

definition js_get :: "jsprim jsobject \<Rightarrow> jsstring \<Rightarrow> jsvalue" where
  "js_get obj key =
     (case map_of obj key of
        Some v \<Rightarrow> Prim v
      | None \<Rightarrow> if key \<in> set Object_prototype_names then Member key else Undefined)"

text \<open>
  A property name is an array index when it is the decimal numeral, without
  leading zeros, of a number up to \<open>2\<^sup>3\<^sup>2 - 2\<close>. Own properties are listed
  with the array indices first, in ascending order, then the other names in
  the order of their creation.
\<close>

definition is_digit :: "jschar \<Rightarrow> bool" where
  "is_digit c = (0x0030 \<le> c \<and> c \<le> 0x0039)"

definition digits_value :: "jsstring \<Rightarrow> int" where
  "digits_value key = foldl (\<lambda>n c. 10 * n + (uint c - 48)) 0 key"

definition array_index :: "jsstring \<Rightarrow> int option" where
  "array_index key =
     (if key \<noteq> [] \<and> list_all is_digit key \<and> (hd key \<noteq> 0x0030 \<or> key = [0x0030]) \<and>
         digits_value key \<le> 4294967294
      then Some (digits_value key) else None)"

fun insert_index :: "int \<Rightarrow> jsstring \<times> 'v \<Rightarrow> 'v jsobject \<Rightarrow> 'v jsobject" where
  "insert_index i kv [] = [kv]"
| "insert_index i kv (e # es) =
     (case array_index (fst e) of
        None \<Rightarrow> kv # e # es
      | Some j \<Rightarrow> if i < j then kv # e # es else e # insert_index i kv es)"

text \<open>A new own property.\<close>

definition insert_property :: "jsstring \<Rightarrow> 'v \<Rightarrow> 'v jsobject \<Rightarrow> 'v jsobject" where
  "insert_property key v obj =
     (case array_index key of
        None \<Rightarrow> obj @ [(key, v)]
      | Some i \<Rightarrow> insert_index i (key, v) obj)"

text \<open>
  \<^verbatim>\<open>obj[key] = v\<close> for a primitive \<open>v\<close>: an own property is overwritten
  in place; without an own property, the name \<^verbatim>\<open>__proto__\<close> reaches the
  setter of \<^verbatim>\<open>Object.prototype\<close>, which ignores a primitive; any other
  name gets a new own property.
\<close>

definition own_set :: "'v jsobject \<Rightarrow> jsstring \<Rightarrow> 'v \<Rightarrow> 'v jsobject" where
  "own_set obj key v =
     (if key \<in> fst ` set obj then AList.update key v obj
      else if key = jsstr ''__proto__'' then obj
      else insert_property key v obj)"

text \<open>\<^verbatim>\<open>v || 0\<close>: the falsy values are 0, NaN, the empty string and \<^verbatim>\<open>undefined\<close>.\<close>

fun truthy :: "jsvalue \<Rightarrow> bool" where
  "truthy (Prim (Num n)) = (n \<noteq> NaN \<and> n \<noteq> Fin 0)"
| "truthy (Prim (Str s)) = (s \<noteq> [])"
| "truthy (Member name) = True"
| "truthy Undefined = False"

definition or_zero :: "jsvalue \<Rightarrow> jsvalue" where
  "or_zero v = (if truthy v then v else Prim (Num (Fin 0)))"

text \<open>
  \<^verbatim>\<open>v + count\<close> for a number \<open>count\<close>: numbers are added; a string, or
  an inherited member (an object, whose primitive value is its text), is
  concatenated with the text of the number.
\<close>

fun js_plus :: "runtime \<Rightarrow> jsvalue \<Rightarrow> jsnum \<Rightarrow> jsprim" where
  "js_plus rt (Prim (Num a)) c = Num (num_add a c)"
| "js_plus rt (Prim (Str s)) c = Str (s @ number_text rt c)"
| "js_plus rt (Member name) c = Str (member_text rt name @ number_text rt c)"
| "js_plus rt Undefined c = Num NaN"

section \<open>Word statistics\<close>

text \<open>
  \<^verbatim>\<open>WordStats\<close> is a plain object. Its declared type is
  \<^verbatim>\<open>Record<string, number>\<close>; the update below can store a string.
  The argument of the update handler is a plain object of numbers.
\<close>

type_synonym WordStats = "jsprim jsobject"

text \<open>
  The function that \<^verbatim>\<open>createStatsUpdater\<close> hands to the state setter:
  from the previous statistics and the word counts to the new statistics.
\<close>

definition createStatsUpdater :: "runtime \<Rightarrow> jsnum jsobject \<Rightarrow> WordStats \<Rightarrow> WordStats" where
  "createStatsUpdater rt wordCounts prevStats =
     foldl (\<lambda>newStats (word, count).
              own_set newStats word (js_plus rt (or_zero (js_get newStats word)) count))
       prevStats wordCounts"

text \<open>\<open>word\<close> occurs in \<open>text\<close> at position \<open>i\<close>.\<close>

abbreviation (input) occurs_at :: "jsstring \<Rightarrow> jsstring \<Rightarrow> nat \<Rightarrow> bool" where
  "occurs_at word text i \<equiv>
     i + length word \<le> length text \<and> take (length word) (drop i text) = word"

text \<open>
  \<^verbatim>\<open>text.indexOf(word, fromIndex)\<close>: the start position is clamped to the
  length of the text; the result is the first position from there at which
  \<open>word\<close> occurs, \<open>None\<close> standing for \<^verbatim>\<open>-1\<close>. The empty word
  occurs at every position up to the length of the text.
\<close>

definition indexOf :: "jsstring \<Rightarrow> jsstring \<Rightarrow> nat \<Rightarrow> nat option" where
  "indexOf text word fromIndex =
     (let start = min fromIndex (length text)
      in find (occurs_at word text) [start ..< Suc (length text)])"

text \<open>
  The \<^verbatim>\<open>while (pos !== -1)\<close> loop of \<^verbatim>\<open>countUsedWords\<close>. It does not
  return for the empty word, whose next occurrence is always found.
  (\<open>cnt\<close> is the variable \<^verbatim>\<open>count\<close>.) A JavaScript string has fewer
  than \<open>2\<^sup>5\<^sup>3\<close> code units, so positions and the counter are integers
  that doubles hold exactly.
\<close>

partial_function (option) count_loop :: "jsstring \<Rightarrow> jsstring \<Rightarrow> int \<Rightarrow> nat option \<Rightarrow> int option" where
  "count_loop text word cnt pos =
     (if pos \<noteq> None
      then count_loop text word (cnt + 1) (indexOf text word (the pos + 1))
      else Some cnt)"

declare count_loop.simps [code]

text \<open>
  The body of the \<^verbatim>\<open>forEach\<close> of \<^verbatim>\<open>countUsedWords\<close>, word by word;
  \<^verbatim>\<open>counts[word] = count\<close> is an assignment to the plain object \<^verbatim>\<open>counts\<close>.
\<close>

fun countUsedWords_forEach ::
  "jsstring \<Rightarrow> jsstring list \<Rightarrow> jsnum jsobject \<Rightarrow> jsnum jsobject option" where
  "countUsedWords_forEach text [] counts = Some counts"
| "countUsedWords_forEach text (word # ws) counts =
     (case count_loop text word 0 (indexOf text word 0) of
        None \<Rightarrow> None
      | Some cnt \<Rightarrow>
          countUsedWords_forEach text ws
            (if cnt > 0 then own_set counts word (Fin (of_int cnt)) else counts))"

text \<open>\<^verbatim>\<open>countUsedWords\<close> (reading and writing screens).\<close>

definition countUsedWords :: "AnalyzedVocabulary \<Rightarrow> jsstring \<Rightarrow> jsnum jsobject option" where
  "countUsedWords vocabulary text =
     countUsedWords_forEach text (validHiraganaWords vocabulary) []"

text \<open>
  The effect on the statistics of \<^verbatim>\<open>processNewSentence\<close> (reading screen,
  \<open>hiragana\<close> is the text of the new sentence) and of
  \<^verbatim>\<open>handleReveal\<close> (writing screen, \<open>hiragana\<close> is the expected text of
  the current challenge): the counts of the text go to the update handler.
\<close>

definition processNewSentence ::
  "runtime \<Rightarrow> AnalyzedVocabulary \<Rightarrow> jsstring \<Rightarrow> WordStats \<Rightarrow> WordStats option" where
  "processNewSentence rt vocabulary hiragana stats =
     (case countUsedWords vocabulary hiragana of
        None \<Rightarrow> None
      | Some usedCounts \<Rightarrow> Some (createStatsUpdater rt usedCounts stats))"

text \<open>
  The number of positions of \<open>text\<close> at which \<open>word\<close> occurs; occurrences
  may overlap.
\<close>

definition occurrences :: "jsstring \<Rightarrow> jsstring \<Rightarrow> int" where
  "occurrences word text =
     int (length (filter (occurs_at word text) [0 ..< Suc (length text)]))"

text \<open>
  The specification's words for the count: non-overlapping occurrences,
  scanning left to right; after a match the scan resumes behind the match.
\<close>

function nonoverlapping_count :: "jsstring \<Rightarrow> jsstring \<Rightarrow> int" where
  "nonoverlapping_count word text =
     (if word = [] \<or> length text < length word then 0
      else if take (length word) text = word
           then 1 + nonoverlapping_count word (drop (length word) text)
           else nonoverlapping_count word (tl text))"
  by pat_completeness auto
termination
  by (relation "measure (\<lambda>(word, text). length text)") (auto simp: neq_Nil_conv)

section \<open>Visual quiz: submitting an answer\<close>

record VisualQuizData =
  originalSentence :: jsstring
  maskedSentenceParts :: "jsstring \<times> jsstring"
  targetWord :: jsstring
  romaji :: jsstring
  polishTranslation :: jsstring
  imageBase64 :: jsstring

datatype validationState = Idle | Correct | Incorrect

text \<open>
  \<^verbatim>\<open>handleSubmit\<close> of the visual quiz screen, on the validation state and
  the visual statistics. Without a current quiz it returns at once. The
  object literal \<^verbatim>\<open>{ [currentQuiz.targetWord]: 3 }\<close> has the one own property.
\<close>

definition handleSubmit ::
  "runtime \<Rightarrow> VisualQuizData option \<Rightarrow> jsstring \<Rightarrow> validationState \<times> WordStats \<Rightarrow>
   validationState \<times> WordStats" where
  "handleSubmit rt currentQuiz userInput st =
     (case currentQuiz of
        None \<Rightarrow> st
      | Some quiz \<Rightarrow>
          (let isCorrect = isCorrect_visual userInput (targetWord quiz)
           in (if isCorrect then Correct else Incorrect,
               if isCorrect then createStatsUpdater rt [(targetWord quiz, Fin 3)] (snd st)
               else snd st)))"

section \<open>Sequences of statistics updates\<close>

text \<open>
  The interactions that reach the update handler of a mode: a text is shown
  (reading screen) or its answer revealed (writing screen), or an answer is
  submitted to a quiz (visual screen).
\<close>

datatype stats_event = Shown jsstring | Submitted VisualQuizData jsstring

fun stats_step ::
  "runtime \<Rightarrow> AnalyzedVocabulary \<Rightarrow> stats_event \<Rightarrow> WordStats \<Rightarrow> WordStats option" where
  "stats_step rt vocabulary (Shown hiragana) stats =
     processNewSentence rt vocabulary hiragana stats"
| "stats_step rt vocabulary (Submitted quiz userInput) stats =
     Some (snd (handleSubmit rt (Some quiz) userInput (Idle, stats)))"

fun stats_run ::
  "runtime \<Rightarrow> AnalyzedVocabulary \<Rightarrow> stats_event list \<Rightarrow> WordStats \<Rightarrow> WordStats option" where
  "stats_run rt vocabulary [] stats = Some stats"
| "stats_run rt vocabulary (e # es) stats =
     (case stats_step rt vocabulary e stats of
        None \<Rightarrow> None
      | Some stats' \<Rightarrow> stats_run rt vocabulary es stats')"

section \<open>Start-up\<close>

datatype AppState = CONFIG | INPUT_WORDS | PRACTICE

datatype js_error = SyntaxError

record App =
  view :: AppState
  apiKey :: "jsstring option"
  knownWordsInput :: jsstring
  learningWordsInput :: jsstring
  readingStats :: WordStats
  writingStats :: WordStats
  visualStats :: WordStats
  isInitialized :: bool

text \<open>The initial values of the state variables of \<^verbatim>\<open>App\<close>.\<close>

definition App_initial :: App where
  "App_initial = \<lparr> view = INPUT_WORDS, apiKey = None, knownWordsInput = [],
     learningWordsInput = [], readingStats = [], writingStats = [], visualStats = [],
     isInitialized = False \<rparr>"

text \<open>\<^verbatim>\<open>try { body } catch (e) { handler }\<close> on results.\<close>

definition try_catch :: "js_error + 'a \<Rightarrow> (js_error \<Rightarrow> js_error + 'a) \<Rightarrow> js_error + 'a" where
  "try_catch body handler = (case body of Inl e \<Rightarrow> handler e | Inr x \<Rightarrow> Inr x)"

text \<open>
  One line of step 3 of the initialisation effect:
  \<^verbatim>\<open>if (saved) { try { setStats(JSON.parse(saved)); } catch (e) { } }\<close>.
  \<^verbatim>\<open>JSON.parse\<close> is the runtime's; it is a parameter, raising
  \<^verbatim>\<open>SyntaxError\<close> or returning the parsed value. A missing item
  (\<^verbatim>\<open>null\<close>) and the empty string are falsy. The result is the value of
  the state variable afterwards.
\<close>

definition load_stats ::
  "(jsstring \<Rightarrow> js_error + WordStats) \<Rightarrow> jsstring option \<Rightarrow> WordStats \<Rightarrow> js_error + WordStats" where
  "load_stats JSON_parse saved stats =
     (case saved of
        None \<Rightarrow> Inr stats
      | Some s \<Rightarrow>
          if s = [] then Inr stats
          else try_catch
                 (case JSON_parse s of Inl e \<Rightarrow> Inl e | Inr parsed \<Rightarrow> Inr parsed)
                 (\<lambda>e. Inr stats))"

text \<open>
  The initialisation effect of \<^verbatim>\<open>App\<close>: \<open>envKey\<close> is
  \<^verbatim>\<open>process.env.API_KEY\<close>, \<open>localStorage\<close> maps a key to the stored
  item. An error of a step would end the effect there.
\<close>

definition initialize ::
  "jsstring option \<Rightarrow> (string \<Rightarrow> jsstring option) \<Rightarrow> (jsstring \<Rightarrow> js_error + WordStats) \<Rightarrow>
   App \<Rightarrow> js_error + App" where
  "initialize envKey localStorage JSON_parse app =
     (let storedKey = localStorage ''hiragana_dojo_api_key'';
          app1 = (if envKey \<noteq> None \<and> envKey \<noteq> Some [] then app\<lparr>apiKey := envKey\<rparr>
                  else if storedKey \<noteq> None \<and> storedKey \<noteq> Some [] then app\<lparr>apiKey := storedKey\<rparr>
                  else app\<lparr>view := CONFIG\<rparr>);
          savedKnown = localStorage ''hiragana_practice_known_words'';
          savedLearning = localStorage ''hiragana_practice_learning_words'';
          legacyWords = localStorage ''hiragana_practice_words'';
          app2 = (case savedKnown of
                    Some k \<Rightarrow> app1\<lparr>knownWordsInput := k\<rparr>
                  | None \<Rightarrow>
                      (case legacyWords of
                         Some l \<Rightarrow> if l \<noteq> [] then app1\<lparr>knownWordsInput := l\<rparr> else app1
                       | None \<Rightarrow> app1));
          app3 = (case savedLearning of
                    Some l \<Rightarrow> app2\<lparr>learningWordsInput := l\<rparr>
                  | None \<Rightarrow> app2);
          savedReadingStats = localStorage ''hiragana_practice_reading_stats'';
          savedWritingStats = localStorage ''hiragana_practice_writing_stats'';
          savedVisualStats = localStorage ''hiragana_practice_visual_stats''
      in case load_stats JSON_parse savedReadingStats (readingStats app3) of
           Inl e \<Rightarrow> Inl e
         | Inr r \<Rightarrow>
             (case load_stats JSON_parse savedWritingStats (writingStats app3) of
                Inl e \<Rightarrow> Inl e
              | Inr w \<Rightarrow>
                  (case load_stats JSON_parse savedVisualStats (visualStats app3) of
                     Inl e \<Rightarrow> Inl e
                   | Inr v \<Rightarrow>
                       Inr (app3\<lparr>readingStats := r, writingStats := w, visualStats := v,
                                 isInitialized := True\<rparr>))))"

section \<open>Suggestion selection\<close>

text \<open>
  Conversion to a number, as the subtraction of the comparator does it: a
  string is converted by the runtime; an inherited member is an object whose
  primitive value is its text, a function's source or \<^verbatim>\<open>[object Object]\<close>,
  which is no numeral.
\<close>

fun to_number :: "runtime \<Rightarrow> jsvalue \<Rightarrow> jsnum" where
  "to_number rt (Prim (Num n)) = n"
| "to_number rt (Prim (Str s)) = string_number rt s"
| "to_number rt (Member name) = NaN"
| "to_number rt Undefined = NaN"

text \<open>\<^verbatim>\<open>a === b\<close>: two inherited members are the same object when they have the same name.\<close>

fun strict_equal :: "jsvalue \<Rightarrow> jsvalue \<Rightarrow> bool" where
  "strict_equal (Prim (Num a)) (Prim (Num b)) = num_equal a b"
| "strict_equal (Prim (Str s)) (Prim (Str t)) = (s = t)"
| "strict_equal (Member m) (Member n) = (m = n)"
| "strict_equal Undefined Undefined = True"
| "strict_equal _ _ = False"

text \<open>
  The comparator \<^verbatim>\<open>sortByUsage\<close>; \<open>random\<close> is the value that
  \<^verbatim>\<open>Math.random()\<close> returns in this call, from 0 up to but not including 1.
\<close>

definition sortByUsage :: "runtime \<Rightarrow> WordStats \<Rightarrow> real \<Rightarrow> jsstring \<Rightarrow> jsstring \<Rightarrow> jsnum" where
  "sortByUsage rt wordStats random a b =
     (let countA = or_zero (js_get wordStats a);
          countB = or_zero (js_get wordStats b)
      in if strict_equal countA countB then num_sub (Fin random) (Fin (1 / 2))
         else num_sub (to_number rt countA) (to_number rt countB))"

text \<open>The known pool of \<^verbatim>\<open>getSuggestedWords\<close>.\<close>

definition knownPool :: "AnalyzedVocabulary \<Rightarrow> jsstring list" where
  "knownPool vocabulary =
     filter (\<lambda>w. w \<notin> set (learningWords vocabulary)) (validHiraganaWords vocabulary)"

text \<open>
  \<^verbatim>\<open>getSuggestedWords\<close> (the same in the three screens).
  \<^verbatim>\<open>Array.prototype.sort\<close> is the runtime's, and with a comparator that
  answers at random it is not a function of the array alone: it is the
  parameter \<open>sort_with\<close>, given the comparator and the array.
\<close>

definition getSuggestedWords ::
  "runtime \<Rightarrow> ((real \<Rightarrow> jsstring \<Rightarrow> jsstring \<Rightarrow> jsnum) \<Rightarrow> jsstring list \<Rightarrow> jsstring list) \<Rightarrow>
   AnalyzedVocabulary \<Rightarrow> WordStats \<Rightarrow> jsstring list" where
  "getSuggestedWords rt sort_with vocabulary wordStats =
     (let learningPool = learningWords vocabulary;
          sortedLearning = sort_with (sortByUsage rt wordStats) learningPool;
          sortedKnown = sort_with (sortByUsage rt wordStats) (knownPool vocabulary);
          learningCount = min 3 (length sortedLearning);
          selectedLearning = take learningCount sortedLearning;
          needed = 5 - int (length selectedLearning);
          selectedKnown = take (nat (max 0 needed)) sortedKnown
      in selectedLearning @ selectedKnown)"

text \<open>
  What every runtime's sort does, whatever the comparator answers: the result
  is a rearrangement of the array. This is assumed of both sorts of one call
  of \<^verbatim>\<open>getSuggestedWords\<close>.
\<close>

definition pools_rearranged ::
  "runtime \<Rightarrow> ((real \<Rightarrow> jsstring \<Rightarrow> jsstring \<Rightarrow> jsnum) \<Rightarrow> jsstring list \<Rightarrow> jsstring list) \<Rightarrow>
   AnalyzedVocabulary \<Rightarrow> WordStats \<Rightarrow> bool" where
  "pools_rearranged rt sort_with vocabulary wordStats =
     (mset (sort_with (sortByUsage rt wordStats) (learningWords vocabulary)) =
        mset (learningWords vocabulary) \<and>
      mset (sort_with (sortByUsage rt wordStats) (knownPool vocabulary)) =
        mset (knownPool vocabulary))"

section \<open>Prefetch pipeline of the reading screen\<close>

text \<open>
  The generator is asynchronous: \<^verbatim>\<open>generateSentence\<close> returns a promise
  that the generator settles later. The model keeps every promise ever
  returned in the list \<open>requests\<close>, with the kind of call that produced it
  (the first load of \<^verbatim>\<open>init\<close>, or \<^verbatim>\<open>queueNextSentence\<close>) and its
  state; a promise is named by its position. \<open>awaiting\<close> holds the async
  function suspended at its \<^verbatim>\<open>await\<close> and the promise it waits for.
  \<open>shown\<close> lists the promises whose sentences went through
  \<^verbatim>\<open>processNewSentence\<close>, in order.
\<close>

datatype request_kind = Initial | Prefetch

datatype promise_state = Pending | Fulfilled | Rejected

datatype suspended = InitAwait | NextAwait

record PracticeScreen =
  requests :: "(request_kind \<times> promise_state) list"
  bufferPromiseRef :: "nat option"
  mountedRef :: bool
  isInitialLoading :: bool
  isTransitioning :: bool
  error :: bool
  currentData :: "nat option"
  shown :: "nat list"
  awaiting :: "(suspended \<times> nat) option"

text \<open>The initial values of the state variables and references.\<close>

definition PracticeScreen_initial :: PracticeScreen where
  "PracticeScreen_initial =
     \<lparr> requests = [], bufferPromiseRef = None, mountedRef = False, isInitialLoading = True,
       isTransitioning = False, error = False, currentData = None, shown = [],
       awaiting = None \<rparr>"

text \<open>A call of \<^verbatim>\<open>generateSentence\<close>: a new pending promise.\<close>

definition generateSentence :: "request_kind \<Rightarrow> PracticeScreen \<Rightarrow> nat \<times> PracticeScreen" where
  "generateSentence kind s =
     (length (requests s), s\<lparr>requests := requests s @ [(kind, Pending)]\<rparr>)"

definition queueNextSentence :: "PracticeScreen \<Rightarrow> PracticeScreen" where
  "queueNextSentence s =
     (let (p, s') = generateSentence Prefetch s in s'\<lparr>bufferPromiseRef := Some p\<rparr>)"

text \<open>\<^verbatim>\<open>processNewSentence\<close>, as far as the screen's own state goes.\<close>

definition processNewSentence_display :: "nat \<Rightarrow> PracticeScreen \<Rightarrow> PracticeScreen" where
  "processNewSentence_display p s = s\<lparr>currentData := Some p, shown := shown s @ [p]\<rparr>"

text \<open>
  The rest of \<^verbatim>\<open>init\<close> after its \<^verbatim>\<open>await\<close>: \<open>ok\<close> says whether
  the promise \<open>p\<close> was fulfilled (the \<^verbatim>\<open>try\<close> branch) or rejected (the
  \<^verbatim>\<open>catch\<close> branch).
\<close>

definition init_resume :: "bool \<Rightarrow> nat \<Rightarrow> PracticeScreen \<Rightarrow> PracticeScreen" where
  "init_resume ok p s =
     (if ok then (queueNextSentence (processNewSentence_display p s))\<lparr>isInitialLoading := False\<rparr>
      else s\<lparr>error := True, isInitialLoading := False\<rparr>)"

text \<open>The rest of \<^verbatim>\<open>handleNextSentence\<close> after its \<^verbatim>\<open>await\<close>.\<close>

definition next_resume :: "bool \<Rightarrow> nat \<Rightarrow> PracticeScreen \<Rightarrow> PracticeScreen" where
  "next_resume ok p s =
     (if ok then (queueNextSentence (processNewSentence_display p s))\<lparr>isTransitioning := False\<rparr>
      else s\<lparr>error := True, bufferPromiseRef := None, isTransitioning := False\<rparr>)"

fun resume :: "suspended \<Rightarrow> bool \<Rightarrow> nat \<Rightarrow> PracticeScreen \<Rightarrow> PracticeScreen" where
  "resume InitAwait ok p s = init_resume ok p s"
| "resume NextAwait ok p s = next_resume ok p s"

text \<open>The mount effect: it runs \<^verbatim>\<open>init\<close> once, up to its \<^verbatim>\<open>await\<close>.\<close>

definition useEffect_mount :: "PracticeScreen \<Rightarrow> PracticeScreen" where
  "useEffect_mount s =
     (if mountedRef s then s
      else (let s1 = s\<lparr>mountedRef := True, isInitialLoading := True\<rparr>;
                (p, s2) = generateSentence Initial s1
            in s2\<lparr>awaiting := Some (InitAwait, p)\<rparr>))"

text \<open>
  \<^verbatim>\<open>handleNextSentence\<close> up to its \<^verbatim>\<open>await\<close>, and beyond it when the
  awaited promise is settled already.
\<close>

text \<open>
  The reference is set when the function reaches its \<^verbatim>\<open>await\<close>; the
  branch for an empty reference is there for totality only.
\<close>

definition handleNextSentence :: "PracticeScreen \<Rightarrow> PracticeScreen" where
  "handleNextSentence s =
     (let s1 = s\<lparr>error := False, isTransitioning := True\<rparr>;
          s2 = (if bufferPromiseRef s1 = None then queueNextSentence s1 else s1)
      in case bufferPromiseRef s2 of
           None \<Rightarrow> s2
         | Some p \<Rightarrow>
             (case snd (requests s2 ! p) of
                Pending \<Rightarrow> s2\<lparr>awaiting := Some (NextAwait, p)\<rparr>
              | Fulfilled \<Rightarrow> next_resume True p s2
              | Rejected \<Rightarrow> next_resume False p s2))"

text \<open>
  The generator settles the promise \<open>p\<close>; the function that awaits it, if
  any, goes on.
\<close>

definition settle :: "nat \<Rightarrow> bool \<Rightarrow> PracticeScreen \<Rightarrow> PracticeScreen" where
  "settle p ok s =
     (if p < length (requests s) \<and> snd (requests s ! p) = Pending
      then (let s1 = s\<lparr>requests :=
                         (requests s)[p := (fst (requests s ! p),
                                            if ok then Fulfilled else Rejected)]\<rparr>
            in case awaiting s1 of
                 None \<Rightarrow> s1
               | Some (f, q) \<Rightarrow> if q = p then resume f ok p (s1\<lparr>awaiting := None\<rparr>) else s1)
      else s)"

text \<open>
  What can happen to a screen: the mount effect runs, the generator settles a
  promise, the user presses the button for the next story (disabled while
  loading or transitioning), or the retry button (rendered when an error is
  shown after the initial loading).
\<close>

datatype event = Mount | Settle nat bool | ClickNext | ClickRetry

fun step :: "event \<Rightarrow> PracticeScreen \<Rightarrow> PracticeScreen" where
  "step Mount s = useEffect_mount s"
| "step (Settle p ok) s = settle p ok s"
| "step ClickNext s =
     (if isTransitioning s \<or> isInitialLoading s then s else handleNextSentence s)"
| "step ClickRetry s =
     (if \<not> isInitialLoading s \<and> error s then handleNextSentence s else s)"

definition run :: "event list \<Rightarrow> PracticeScreen" where
  "run evs = foldl (\<lambda>s e. step e s) PracticeScreen_initial evs"

text \<open>The numbers that the pipeline's properties speak of.\<close>

definition prefetches_issued :: "PracticeScreen \<Rightarrow> nat" where
  "prefetches_issued s = length (filter (\<lambda>r. fst r = Prefetch) (requests s))"

definition prefetches_pending :: "PracticeScreen \<Rightarrow> nat" where
  "prefetches_pending s = length (filter (\<lambda>r. r = (Prefetch, Pending)) (requests s))"

text \<open>An execution in which the generator rejects nothing.\<close>

fun no_failure :: "event list \<Rightarrow> bool" where
  "no_failure [] = True"
| "no_failure (Settle p ok # evs) = (ok \<and> no_failure evs)"
| "no_failure (e # evs) = no_failure evs"

text \<open>
  The execution with a successful first load and \<open>n\<close> advances, each
  awaiting its prefetch: request 0 is the first load, request \<open>i + 1\<close> the
  prefetch consumed by advance \<open>i\<close>.
\<close>

definition advances :: "nat \<Rightarrow> event list" where
  "advances n = [Mount, Settle 0 True] @ concat (map (\<lambda>i. [ClickNext, Settle (Suc i) True]) [0..<n])"

text \<open>
  What holds of the screen in every execution: a pending prefetch is the one
  the reference points to; an awaiting function goes with its loading flag;
  before the mount nothing has been requested.
\<close>

definition pipeline_inv :: "PracticeScreen \<Rightarrow> bool" where
  "pipeline_inv s =
     ((\<forall>i<length (requests s). requests s ! i = (Prefetch, Pending) \<longrightarrow>
          bufferPromiseRef s = Some i) \<and>
      (\<forall>b. bufferPromiseRef s = Some b \<longrightarrow> b < length (requests s)) \<and>
      (awaiting s = None \<longrightarrow> \<not> isTransitioning s \<and> (mountedRef s \<longrightarrow> \<not> isInitialLoading s)) \<and>
      (\<forall>p. awaiting s = Some (InitAwait, p) \<longrightarrow>
          isInitialLoading s \<and> \<not> isTransitioning s \<and> mountedRef s \<and>
          bufferPromiseRef s = None \<and>
          (\<forall>i<length (requests s). fst (requests s ! i) = Initial)) \<and>
      (\<forall>p. awaiting s = Some (NextAwait, p) \<longrightarrow>
          isTransitioning s \<and> \<not> isInitialLoading s \<and> mountedRef s \<and>
          bufferPromiseRef s = Some p) \<and>
      (\<not> mountedRef s \<longrightarrow>
          requests s = [] \<and> bufferPromiseRef s = None \<and> isInitialLoading s \<and>
          awaiting s = None) \<and>
      (error s \<longrightarrow> \<not> isTransitioning s))"

text \<open>
  What holds in addition while the generator rejects nothing: before the first
  sentence is shown at most the first load has been requested; from then on
  there is one prefetch per sentence shown, and one request more in total.
\<close>

definition count_inv :: "PracticeScreen \<Rightarrow> bool" where
  "count_inv s =
     ((\<forall>i<length (requests s). snd (requests s ! i) \<noteq> Rejected) \<and> \<not> error s \<and>
      (shown s = [] \<longrightarrow>
         isInitialLoading s \<and> \<not> isTransitioning s \<and> bufferPromiseRef s = None \<and>
         (mountedRef s \<longrightarrow> requests s = [(Initial, Pending)] \<and> awaiting s = Some (InitAwait, 0)) \<and>
         (\<not> mountedRef s \<longrightarrow> requests s = [] \<and> awaiting s = None)) \<and>
      (shown s \<noteq> [] \<longrightarrow>
         mountedRef s \<and> \<not> isInitialLoading s \<and>
         prefetches_issued s = length (shown s) \<and>
         length (requests s) = length (shown s) + 1 \<and>
         (\<exists>b. bufferPromiseRef s = Some b \<and> b < length (requests s)) \<and>
         (awaiting s = None \<and> \<not> isTransitioning s \<or>
          isTransitioning s \<and> (\<exists>p. awaiting s = Some (NextAwait, p) \<and>
             bufferPromiseRef s = Some p))))"

text \<open>The state after a successful first load and \<open>n\<close> successful advances.\<close>

definition ready_state :: "nat \<Rightarrow> PracticeScreen" where
  "ready_state n =
     \<lparr> requests = (Initial, Fulfilled) # replicate n (Prefetch, Fulfilled) @ [(Prefetch, Pending)],
       bufferPromiseRef = Some (Suc n), mountedRef = True, isInitialLoading = False,
       isTransitioning = False, error = False, currentData = Some n, shown = [0..<Suc n],
       awaiting = None \<rparr>"

section \<open>Example inputs\<close>

text \<open>
  A store whose reading statistics are the unparseable string \<^verbatim>\<open>{\<close> and
  whose visual statistics are \<^verbatim>\<open>{}\<close>, and a parser that accepts only
  \<^verbatim>\<open>{}\<close>.
\<close>

definition example_localStorage :: "string \<Rightarrow> jsstring option" where
  "example_localStorage k =
     (if k = ''hiragana_practice_reading_stats'' then Some [0x007B]
      else if k = ''hiragana_practice_visual_stats'' then Some [0x007B, 0x007D]
      else None)"

definition example_JSON_parse :: "jsstring \<Rightarrow> js_error + WordStats" where
  "example_JSON_parse s = (if s = [0x007B, 0x007D] then Inr [] else Inl SyntaxError)"

text \<open>
  A runtime for the examples: the member texts of V8, decimal numerals for
  the natural numbers, and no string read as a number.
\<close>

fun decimal :: "nat \<Rightarrow> jsstring" where
  "decimal n = (if n < 10 then [of_nat (48 + n)] else decimal (n div 10) @ [of_nat (48 + n mod 10)])"

definition example_number_text :: "jsnum \<Rightarrow> jsstring" where
  "example_number_text n =
     (case n of
        Fin x \<Rightarrow> if 0 \<le> x \<and> of_int \<lfloor>x\<rfloor> = x then decimal (nat \<lfloor>x\<rfloor>) else []
      | NaN \<Rightarrow> jsstr ''NaN''
      | PosInf \<Rightarrow> jsstr ''Infinity''
      | NegInf \<Rightarrow> jsstr ''-Infinity'')"

definition example_runtime :: runtime where
  "example_runtime =
     \<lparr> member_text = (\<lambda>name. if name = jsstr ''__proto__'' then jsstr ''[object Object]''
                            else if name = jsstr ''constructor''
                            then jsstr ''function Object() { [native code] }''
                            else jsstr ''function '' @ name @ jsstr ''() { [native code] }''),
       number_text = example_number_text,
       string_number = (\<lambda>s. NaN) \<rparr>"

text \<open>
  A sort as runtimes have it for short arrays: insertion sort. The sort's
  comparison reads an answer NaN as 0, so an element moves in front of another
  only when the comparator's answer for the pair is not positive. Every call
  of the comparator draws the random value \<open>draw\<close>.
\<close>

fun insert_by :: "('a \<Rightarrow> 'a \<Rightarrow> jsnum) \<Rightarrow> 'a \<Rightarrow> 'a list \<Rightarrow> 'a list" where
  "insert_by cmp x [] = [x]"
| "insert_by cmp x (y # ys) =
     (if \<not> num_positive (cmp x y) then x # y # ys else y # insert_by cmp x ys)"

definition insertion_sort :: "real \<Rightarrow> (real \<Rightarrow> 'a \<Rightarrow> 'a \<Rightarrow> jsnum) \<Rightarrow> 'a list \<Rightarrow> 'a list" where
  "insertion_sort draw cmp xs = foldr (insert_by (cmp draw)) xs []"

section \<open>Properties of answer normalisation\<close>

lemma replace_class_g_empty: "replace_class_g cls [] text = filter (\<lambda>c. \<not> cls c) text"
  by (induction "text") (simp_all add: replace_class_g_def)

lemma trim_no_space:
  assumes "\<forall>c\<in>set text. \<not> isWhiteSpace c"
  shows "trim text = text"
proof -
  have a: "dropWhile isWhiteSpace text = text"
    using assms by (cases "text") simp_all
  have b: "dropWhile isWhiteSpace (rev text) = rev text"
    using assms by (cases "rev text") (simp, metis dropWhile.simps(2) list.set_intros(1) set_rev)
  show ?thesis by (simp add: trim_def a b)
qed

lemma isWhiteSpace_ideographic: "isWhiteSpace 0x3000"
  by (simp add: isWhiteSpace_def)

lemma space_class_eq: "space_class c = isWhiteSpace c"
  using isWhiteSpace_ideographic by (auto simp: space_class_def)

lemma normalizeJapanese_visual_filter:
  "normalizeJapanese_visual text = filter (\<lambda>c. \<not> isWhiteSpace c) text"
proof -
  have "replace_class_g space_class [] text = filter (\<lambda>c. \<not> isWhiteSpace c) text"
    by (simp add: replace_class_g_empty space_class_eq)
  then show ?thesis
    by (simp add: normalizeJapanese_visual_def trim_no_space)
qed

lemma normalizeJapanese_writing_filter:
  "normalizeJapanese_writing text =
     filter (\<lambda>c. \<not> isWhiteSpace c \<and> c \<notin> set punctuation) text"
proof -
  have s: "replace_class_g space_class [] text = filter (\<lambda>c. \<not> isWhiteSpace c) text"
    by (simp add: replace_class_g_empty space_class_eq)
  have "replace_class_g punctuation_class [] (replace_class_g space_class [] text) =
        filter (\<lambda>c. \<not> isWhiteSpace c \<and> c \<notin> set punctuation) text"
    by (simp add: replace_class_g_empty space_class_eq punctuation_class_def)
  then show ?thesis
    by (simp add: normalizeJapanese_writing_def trim_no_space)
qed

text \<open>
  Claim C7. Both normalisers delete every white-space code unit, the
  full-width space U+3000 among them, and keep everything else in order; the
  writing screen's normaliser deletes in addition exactly the eight
  punctuation marks; an answer is correct when the two normalised strings are
  equal; and with punctuation stripping the strings
  \<^verbatim>\<open>WA TA SI space HA space NE KO full-stop\<close> and
  \<^verbatim>\<open>WA TA SI HA NE KO\<close> have the same normal form.
\<close>

theorem normalizeJapanese_strips:
  "normalizeJapanese_visual text = filter (\<lambda>c. \<not> isWhiteSpace c) text
   \<and> normalizeJapanese_writing text =
       filter (\<lambda>c. \<not> isWhiteSpace c \<and> c \<notin> set punctuation) text
   \<and> isWhiteSpace 0x3000
   \<and> punctuation = [0x3001, 0x3002, 0xFF01, 0xFF1F, 0x002E, 0x002C, 0x0021, 0x003F]
   \<and> isCorrect_writing userDraft answer =
       (normalizeJapanese_writing userDraft = normalizeJapanese_writing answer)
   \<and> isCorrect_visual userInput target =
       (normalizeJapanese_visual userInput = normalizeJapanese_visual target)
   \<and> normalizeJapanese_writing
         [0x308F, 0x305F, 0x3057, 0x0020, 0x306F, 0x0020, 0x306D, 0x3053, 0x3002]
       = normalizeJapanese_writing [0x308F, 0x305F, 0x3057, 0x306F, 0x306D, 0x3053]
   \<and> isCorrect_writing
         [0x308F, 0x305F, 0x3057, 0x0020, 0x306F, 0x0020, 0x306D, 0x3053, 0x3002]
         [0x308F, 0x305F, 0x3057, 0x306F, 0x306D, 0x3053]"
proof -
  have ex: "normalizeJapanese_writing
         [0x308F, 0x305F, 0x3057, 0x0020, 0x306F, 0x0020, 0x306D, 0x3053, 0x3002]
       = normalizeJapanese_writing [0x308F, 0x305F, 0x3057, 0x306F, 0x306D, 0x3053]"
    by (simp add: normalizeJapanese_writing_filter isWhiteSpace_def punctuation_def)
  show ?thesis
    using ex
    by (simp add: normalizeJapanese_visual_filter normalizeJapanese_writing_filter
        isCorrect_writing_def isCorrect_visual_def isWhiteSpace_def punctuation_def)
qed

section \<open>Properties of the vocabulary analysis\<close>

lemma tokens_Nil: "tokens [] = {}"
  by (auto simp: tokens_def)

lemma tokensI:
  "w \<noteq> [] \<Longrightarrow> \<forall>c\<in>set w. \<not> isWhiteSpace c \<Longrightarrow> t = pre @ w @ post \<Longrightarrow>
   pre = [] \<or> isWhiteSpace (last pre) \<Longrightarrow> post = [] \<or> isWhiteSpace (hd post) \<Longrightarrow>
   w \<in> tokens t"
  unfolding tokens_def by blast

lemma tokens_sep:
  assumes c: "isWhiteSpace c"
  shows "tokens (a @ c # b) = tokens a \<union> tokens b"
proof (intro set_eqI iffI)
  fix w
  assume "w \<in> tokens (a @ c # b)"
  then obtain pre post where w: "w \<noteq> []" "\<forall>x\<in>set w. \<not> isWhiteSpace x"
    and eq: "a @ c # b = pre @ w @ post"
    and bp: "pre = [] \<or> isWhiteSpace (last pre)"
    and bq: "post = [] \<or> isWhiteSpace (hd post)"
    by (auto simp: tokens_def)
  have cw: "c \<notin> set w" using w(2) c by blast
  from eq have "pre @ (w @ post) = a @ (c # b)" by simp
  then consider us where "pre = a @ us" "us @ (w @ post) = c # b"
    | us where "pre @ us = a" "w @ post = us @ (c # b)"
    by (auto simp: append_eq_append_conv2)
  then show "w \<in> tokens a \<union> tokens b"
  proof cases
    case 1
    have "us \<noteq> []"
    proof
      assume "us = []"
      with 1 have "w @ post = c # b" by simp
      with w(1) cw show False by (cases w) auto
    qed
    then obtain us' where us: "us = c # us'" "b = us' @ w @ post"
      using 1(2) by (cases us) auto
    have "us' = [] \<or> isWhiteSpace (last us')" using bp 1(1) us(1) by (auto split: if_splits)
    then have "w \<in> tokens b" using w bq us(2) by (intro tokensI[where pre=us' and post=post]) auto
    then show ?thesis by simp
  next
    case 2
    from 2(2) consider vs where "w = us @ vs" "vs @ post = c # b"
      | vs where "w @ vs = us" "post = vs @ (c # b)"
      by (auto simp: append_eq_append_conv2)
    then have "w \<in> tokens a"
    proof cases
      case 1
      have "vs = []" using 1 cw by (cases vs) auto
      with 1 2 have "a = pre @ w @ []" by simp
      then show ?thesis using w bp by (intro tokensI[where pre=pre and post="[]"]) auto
    next
      case 2
      note v = this
      have "a = pre @ w @ vs" using \<open>pre @ us = a\<close> v(1) by simp
      moreover have "vs = [] \<or> isWhiteSpace (hd vs)" using bq v(2) c by (cases vs) auto
      ultimately show ?thesis using w bp by (intro tokensI[where pre=pre and post=vs]) auto
    qed
    then show ?thesis by simp
  qed
next
  fix w
  assume "w \<in> tokens a \<union> tokens b"
  then show "w \<in> tokens (a @ c # b)"
  proof
    assume "w \<in> tokens a"
    then obtain pre post where w: "w \<noteq> []" "\<forall>x\<in>set w. \<not> isWhiteSpace x"
      and eq: "a = pre @ w @ post"
      and bp: "pre = [] \<or> isWhiteSpace (last pre)"
      and bq: "post = [] \<or> isWhiteSpace (hd post)"
      by (auto simp: tokens_def)
    have "a @ c # b = pre @ w @ (post @ c # b)" using eq by simp
    moreover have "post @ c # b = [] \<or> isWhiteSpace (hd (post @ c # b))"
      using bq c by (cases post) auto
    ultimately show ?thesis using w bp by (intro tokensI[where pre=pre and post="post @ c # b"]) auto
  next
    assume "w \<in> tokens b"
    then obtain pre post where w: "w \<noteq> []" "\<forall>x\<in>set w. \<not> isWhiteSpace x"
      and eq: "b = pre @ w @ post"
      and bp: "pre = [] \<or> isWhiteSpace (last pre)"
      and bq: "post = [] \<or> isWhiteSpace (hd post)"
      by (auto simp: tokens_def)
    have "a @ c # b = (a @ c # pre) @ w @ post" using eq by simp
    moreover have "a @ c # pre = [] \<or> isWhiteSpace (last (a @ c # pre))"
      using bp c by auto
    ultimately show ?thesis using w bq by (intro tokensI[where pre="a @ c # pre" and post=post]) auto
  qed
qed

lemma tokens_wsfree:
  assumes "\<forall>c\<in>set t. \<not> isWhiteSpace c"
  shows "tokens t = (if t = [] then {} else {t})"
proof (cases "t = []")
  case True then show ?thesis by (simp add: tokens_Nil)
next
  case False
  have "w = t" if "w \<in> tokens t" for w
  proof -
    from that obtain pre post where eq: "t = pre @ w @ post"
      and bp: "pre = [] \<or> isWhiteSpace (last pre)"
      and bq: "post = [] \<or> isWhiteSpace (hd post)"
      by (auto simp: tokens_def)
    have "pre = []" using bp eq assms by (cases pre rule: rev_cases) auto
    moreover have "post = []" using bq eq assms by (cases post) auto
    ultimately show ?thesis using eq by simp
  qed
  moreover have "t \<in> tokens t"
    using False assms by (intro tokensI[where pre="[]" and post="[]"]) auto
  ultimately show ?thesis using False by auto
qed

lemma tokens_Cons_space: "isWhiteSpace c \<Longrightarrow> tokens (c # b) = tokens b"
  using tokens_sep[of c "[]" b] by (simp add: tokens_Nil)

lemma tokens_snoc_space: "isWhiteSpace c \<Longrightarrow> tokens (a @ [c]) = tokens a"
  using tokens_sep[of c a "[]"] by (simp add: tokens_Nil)

lemma tokens_dropWhile: "tokens (dropWhile isWhiteSpace t) = tokens t"
  by (induction t) (simp_all add: tokens_Cons_space)

lemma tokens_dropWhile_rev: "tokens (rev (dropWhile isWhiteSpace (rev t))) = tokens t"
  by (induction t rule: rev_induct) (simp_all add: tokens_snoc_space)

lemma tokens_trim: "tokens (trim t) = tokens t"
  by (simp add: trim_def tokens_dropWhile_rev tokens_dropWhile)

lemma split_loop_tokens:
  "\<forall>c\<in>set cur. \<not> isWhiteSpace c \<Longrightarrow>
   set (split_loop cur rest) - {[]} = tokens (cur @ rest)"
proof (induction cur rest rule: split_loop.induct)
  case (1 cur)
  then show ?case by (auto simp: tokens_wsfree)
next
  case (2 cur c cs)
  show ?case
  proof (cases "isWhiteSpace c")
    case True
    have "set (split_loop [] (dropWhile isWhiteSpace cs)) - {[]} = tokens cs"
      using 2(1)[OF True] by (simp add: tokens_dropWhile)
    moreover have "tokens (cur @ c # cs) = tokens cur \<union> tokens cs"
      by (rule tokens_sep[OF True])
    moreover have "tokens cur = {cur} - {[]}"
      using 2(3) by (auto simp: tokens_wsfree)
    ultimately show ?thesis using True by auto
  next
    case False
    then show ?thesis using 2(2)[OF False] 2(3) by simp
  qed
qed

lemma set_Set_add: "set (Set_add s x) = insert x (set s)"
  by (auto simp: Set_add_def)

lemma distinct_Set_add: "distinct s \<Longrightarrow> distinct (Set_add s x)"
  by (auto simp: Set_add_def)

lemma set_foldl_Set_add: "set (foldl Set_add s xs) = set s \<union> set xs"
  by (induction xs arbitrary: s) (auto simp: set_Set_add)

lemma distinct_foldl_Set_add: "distinct s \<Longrightarrow> distinct (foldl Set_add s xs)"
  by (induction xs arbitrary: s) (auto simp: distinct_Set_add)

lemma set_new_Set: "set (new_Set xs) = set xs"
  by (simp add: new_Set_def set_foldl_Set_add)

lemma distinct_new_Set: "distinct (new_Set xs)"
  by (simp add: new_Set_def distinct_foldl_Set_add)

lemma set_parseWords: "set (parseWords t) = tokens t"
proof -
  have "set (split_ws (trim t)) - {[]} = tokens t"
    using split_loop_tokens[of "[]" "trim t"] by (simp add: split_ws_def tokens_trim)
  then show ?thesis by (auto simp: parseWords_def set_new_Set)
qed

lemma distinct_parseWords: "distinct (parseWords t)"
  by (simp add: parseWords_def distinct_new_Set)

lemma codePoints_filter:
  "filter match_hiragana (codePoints w) = map (\<lambda>c. [c]) (filter hiragana_range w)"
proof (induction w rule: codePoints.induct)
  case (3 c d cs)
  show ?case
  proof (cases "isHighSurrogate c \<and> isLowSurrogate d")
    case True
    have "\<not> hiragana_range c"
      using True order_trans[of "0xD800" c "0x309F"]
      by (auto simp: hiragana_range_def isHighSurrogate_def)
    moreover have "\<not> hiragana_range d"
      using True order_trans[of "0xDC00" d "0x309F"]
      by (auto simp: hiragana_range_def isLowSurrogate_def)
    ultimately have "\<not> hiragana_range c" "\<not> hiragana_range d" by simp_all
    then show ?thesis using True 3(1) by (simp add: match_hiragana_def)
  next
    case False
    then show ?thesis using 3(2) by (auto simp: match_hiragana_def)
  qed
qed (simp_all add: match_hiragana_def)

lemma foldl_cond_Set_add:
  "foldl (\<lambda>chars char. if P char then Set_add chars char else chars) acc xs =
   foldl Set_add acc (filter P xs)"
  by (induction xs arbitrary: acc) simp_all

lemma collect_chars_step:
  "foldl (\<lambda>chars char. if match_hiragana char then Set_add chars char else chars)
     acc (codePoints w) = foldl Set_add acc (map (\<lambda>c. [c]) (filter hiragana_range w))"
  by (simp add: foldl_cond_Set_add codePoints_filter)

lemma set_collect_fold:
  "set (foldl (\<lambda>chars w. foldl Set_add chars (map (\<lambda>c. [c]) (filter hiragana_range w)))
          acc ws) =
   set acc \<union> {[c] | c. \<exists>w\<in>set ws. c \<in> set w \<and> hiragana_range c}"
  by (induction ws arbitrary: acc) (auto simp: set_foldl_Set_add)

lemma distinct_collect_fold:
  "distinct acc \<Longrightarrow>
   distinct (foldl (\<lambda>chars w. foldl Set_add chars (map (\<lambda>c. [c]) (filter hiragana_range w)))
          acc ws)"
  by (induction ws arbitrary: acc) (auto simp: distinct_foldl_Set_add)

lemma set_collect_chars:
  "set (collect_chars ws) = {[c] | c. \<exists>w\<in>set ws. c \<in> set w \<and> hiragana_range c}"
  by (simp add: collect_chars_def collect_chars_step set_collect_fold)

lemma distinct_collect_chars: "distinct (collect_chars ws)"
  by (simp add: collect_chars_def collect_chars_step distinct_collect_fold)

text \<open>
  Every vocabulary that the analysis builds has no empty word and no
  duplicates in its two lists: the side conditions of the later theorems
  about a vocabulary hold for it.
\<close>

lemma tokens_nonempty: "[] \<notin> tokens t"
  by (simp add: tokens_def)

lemma handleStartPractice_no_empty_word:
  "[] \<notin> set (validHiraganaWords (handleStartPractice knownWordsText learningWordsText))"
  by (simp add: handleStartPractice_def Let_def set_new_Set set_parseWords tokens_nonempty)

lemma handleStartPractice_distinct:
  "distinct (validHiraganaWords (handleStartPractice knownWordsText learningWordsText)) \<and>
   distinct (learningWords (handleStartPractice knownWordsText learningWordsText))"
  by (simp add: handleStartPractice_def Let_def distinct_new_Set distinct_parseWords)

text \<open>
  Claim C5. For all known-words and learning-words inputs, the valid words
  are, without duplicates, exactly the tokens of the first input together
  with the tokens of the second, the learning words are, without duplicates,
  exactly the tokens of the learning input, and every learning word is a valid
  word.
\<close>

theorem handleStartPractice_words:
  "set (validHiraganaWords (handleStartPractice knownWordsText learningWordsText)) =
     tokens knownWordsText \<union> tokens learningWordsText
   \<and> distinct (validHiraganaWords (handleStartPractice knownWordsText learningWordsText))
   \<and> set (learningWords (handleStartPractice knownWordsText learningWordsText)) =
       tokens learningWordsText
   \<and> distinct (learningWords (handleStartPractice knownWordsText learningWordsText))
   \<and> set (learningWords (handleStartPractice knownWordsText learningWordsText)) \<subseteq>
       set (validHiraganaWords (handleStartPractice knownWordsText learningWordsText))"
  by (auto simp: handleStartPractice_def Let_def set_new_Set distinct_new_Set set_parseWords
      distinct_parseWords)

text \<open>
  Claim C6. For all inputs, the allowed characters are, without duplicates,
  exactly the one-character strings of the code units between U+3040 and
  U+309F that occur in some valid word.
\<close>

theorem handleStartPractice_allowedCharacters:
  "set (allowedCharacters (handleStartPractice knownWordsText learningWordsText)) =
     {[c] | c. \<exists>w\<in>set (validHiraganaWords (handleStartPractice knownWordsText learningWordsText)).
                 c \<in> set w \<and> 0x3040 \<le> c \<and> c \<le> 0x309F}
   \<and> distinct (allowedCharacters (handleStartPractice knownWordsText learningWordsText))"
  by (simp add: handleStartPractice_def Let_def set_collect_chars distinct_collect_chars
      hiragana_range_def)

theorem handleStartPractice_words_witness:
  "set (validHiraganaWords (handleStartPractice
          [0x308F, 0x305F, 0x3057, 0x0020, 0x000A, 0x306D, 0x3053, 0x0041]
          [0x3000, 0x307F, 0x305A, 0x0020, 0x306D, 0x3053])) =
     tokens [0x308F, 0x305F, 0x3057, 0x0020, 0x000A, 0x306D, 0x3053, 0x0041] \<union>
     tokens [0x3000, 0x307F, 0x305A, 0x0020, 0x306D, 0x3053]
   \<and> validHiraganaWords (handleStartPractice
          [0x308F, 0x305F, 0x3057, 0x0020, 0x000A, 0x306D, 0x3053, 0x0041]
          [0x3000, 0x307F, 0x305A, 0x0020, 0x306D, 0x3053]) =
       [[0x308F, 0x305F, 0x3057], [0x306D, 0x3053, 0x0041], [0x307F, 0x305A], [0x306D, 0x3053]]
   \<and> learningWords (handleStartPractice
          [0x308F, 0x305F, 0x3057, 0x0020, 0x000A, 0x306D, 0x3053, 0x0041]
          [0x3000, 0x307F, 0x305A, 0x0020, 0x306D, 0x3053]) =
       [[0x307F, 0x305A], [0x306D, 0x3053]]"
proof -
  have "handleStartPractice [0x308F, 0x305F, 0x3057, 0x0020, 0x000A, 0x306D, 0x3053, 0x0041]
          [0x3000, 0x307F, 0x305A, 0x0020, 0x306D, 0x3053] =
       \<lparr> validHiraganaWords =
           [[0x308F, 0x305F, 0x3057], [0x306D, 0x3053, 0x0041], [0x307F, 0x305A], [0x306D, 0x3053]],
         learningWords = [[0x307F, 0x305A], [0x306D, 0x3053]],
         allowedCharacters =
           [[0x308F], [0x305F], [0x3057], [0x306D], [0x3053], [0x307F], [0x305A]] \<rparr>"
    by code_simp
  then have "validHiraganaWords (handleStartPractice
          [0x308F, 0x305F, 0x3057, 0x0020, 0x000A, 0x306D, 0x3053, 0x0041]
          [0x3000, 0x307F, 0x305A, 0x0020, 0x306D, 0x3053]) =
       [[0x308F, 0x305F, 0x3057], [0x306D, 0x3053, 0x0041], [0x307F, 0x305A], [0x306D, 0x3053]]
     \<and> learningWords (handleStartPractice
          [0x308F, 0x305F, 0x3057, 0x0020, 0x000A, 0x306D, 0x3053, 0x0041]
          [0x3000, 0x307F, 0x305A, 0x0020, 0x306D, 0x3053]) =
       [[0x307F, 0x305A], [0x306D, 0x3053]]"
    by simp
  then show ?thesis
    using handleStartPractice_words
      [of "[0x308F, 0x305F, 0x3057, 0x0020, 0x000A, 0x306D, 0x3053, 0x0041]"
          "[0x3000, 0x307F, 0x305A, 0x0020, 0x306D, 0x3053]"]
    by blast
qed

theorem handleStartPractice_allowedCharacters_witness:
  "set (allowedCharacters (handleStartPractice
          [0x308F, 0x305F, 0x3057, 0x0020, 0x000A, 0x306D, 0x3053, 0x0041]
          [0x3000, 0x307F, 0x305A, 0x0020, 0x306D, 0x3053])) =
     {[c] | c. \<exists>w\<in>set (validHiraganaWords (handleStartPractice
          [0x308F, 0x305F, 0x3057, 0x0020, 0x000A, 0x306D, 0x3053, 0x0041]
          [0x3000, 0x307F, 0x305A, 0x0020, 0x306D, 0x3053])).
                 c \<in> set w \<and> 0x3040 \<le> c \<and> c \<le> 0x309F}
   \<and> allowedCharacters (handleStartPractice
          [0x308F, 0x305F, 0x3057, 0x0020, 0x000A, 0x306D, 0x3053, 0x0041]
          [0x3000, 0x307F, 0x305A, 0x0020, 0x306D, 0x3053]) =
       [[0x308F], [0x305F], [0x3057], [0x306D], [0x3053], [0x307F], [0x305A]]"
proof -
  have "allowedCharacters (handleStartPractice
          [0x308F, 0x305F, 0x3057, 0x0020, 0x000A, 0x306D, 0x3053, 0x0041]
          [0x3000, 0x307F, 0x305A, 0x0020, 0x306D, 0x3053]) =
       [[0x308F], [0x305F], [0x3057], [0x306D], [0x3053], [0x307F], [0x305A]]"
    by code_simp
  then show ?thesis
    using handleStartPractice_allowedCharacters
      [of "[0x308F, 0x305F, 0x3057, 0x0020, 0x000A, 0x306D, 0x3053, 0x0041]"
          "[0x3000, 0x307F, 0x305A, 0x0020, 0x306D, 0x3053]"]
    by blast
qed

section \<open>Properties of JavaScript numbers\<close>

lemma pow2_pos: "0 < pow2 e"
  by (simp add: pow2_def)

lemma round_half_even_of_int: "round_half_even (of_int z) = z"
  by (simp add: round_half_even_def)

lemma floor_log2_of_int: "0 < n \<Longrightarrow> floor_log2 (of_int n) = bitlen n - 1"
  by (simp add: floor_log2_def)

lemma bitlen_less_53:
  assumes "0 < n" "n < 2 ^ 53"
  shows "bitlen n - 1 \<le> 52"
proof -
  have "(2::int) ^ nat (bitlen n - 1) \<le> n" using bitlen_bounds[OF assms(1)] by simp
  then have "(2::int) ^ nat (bitlen n - 1) < 2 ^ 53" using assms(2) by simp
  then have "nat (bitlen n - 1) < 53" by (rule power_less_imp_less_exp[rotated]) simp
  then show ?thesis by simp
qed

lemma round64_pos_int:
  assumes "0 < n" "n < 2 ^ 53"
  shows "round64 (of_int n) = Fin (of_int n)"
proof -
  let ?e = "max (floor_log2 (of_int n) - 52) (- 1074)"
  have k: "bitlen n - 1 \<le> 52" using bitlen_less_53[OF assms] .
  have k0: "0 \<le> bitlen n - 1" using assms(1) bitlen_bounds[of n] bitlen_nonneg[of n]
    by (metis bitlen_eq_zero_iff diff_ge_0_iff_ge int_one_le_iff_zero_less le_less not_le)
  have e: "?e = bitlen n - 53" using k0 by (simp add: floor_log2_of_int[OF assms(1)])
  have e0: "?e \<le> 0" using k e by simp
  have p: "pow2 ?e = 1 / 2 ^ nat (- ?e)"
    using e0 by (cases "?e = 0") (simp_all add: pow2_def)
  have q: "real_of_int n / pow2 ?e = of_int (n * 2 ^ nat (- ?e))"
    unfolding p by simp
  have m: "round_half_even (real_of_int n / pow2 ?e) = n * 2 ^ nat (- ?e)"
    unfolding q by (rule round_half_even_of_int)
  have "real_of_int (n * 2 ^ nat (- ?e)) * (1 / 2 ^ nat (- ?e)) = real_of_int n"
    by simp
  then have r: "of_int (round_half_even (real_of_int n / pow2 ?e)) * pow2 ?e = real_of_int n"
    using m p by simp
  have "real_of_int n < 2 ^ 53" using assms(2) by (metis of_int_less_iff of_int_numeral of_int_power)
  also have "(2::real) ^ 53 \<le> pow2 1024" by (simp add: pow2_def)
  finally have lt: "\<not> pow2 1024 \<le> real_of_int n" by simp
  have a: "\<bar>real_of_int n\<bar> = real_of_int n" using assms(1) by simp
  show ?thesis
    using assms(1) lt by (simp add: round64_def Let_def a r)
qed

lemma round64_neg: "round64 (- x) = num_neg (round64 x)"
  by (simp add: round64_def Let_def)

lemma bitlen_half: "0 < x \<Longrightarrow> x div 2 = y \<Longrightarrow> bitlen x = bitlen y + 1"
  by (subst compute_bitlen) (simp only: if_True)

lemma bitlen_numeral:
  "bitlen (numeral (Num.Bit0 n)) = bitlen (numeral n) + 1"
  "bitlen (numeral (Num.Bit1 n)) = bitlen (numeral n) + 1"
  "bitlen 1 = 1"
proof -
  show "bitlen (numeral (Num.Bit0 n)) = bitlen (numeral n) + 1"
    by (rule bitlen_half) simp_all
  show "bitlen (numeral (Num.Bit1 n)) = bitlen (numeral n) + 1"
    by (rule bitlen_half) simp_all
  have "bitlen 1 = bitlen 0 + 1" by (rule bitlen_half) simp_all
  then show "bitlen 1 = 1" by simp
qed

lemma round64_pow53: "round64 (2 ^ 53) = Fin (2 ^ 53)"
  by (simp add: round64_def floor_log2_def pow2_def round_half_even_def Let_def bitlen_numeral)

text \<open>Integers up to \<open>2\<^sup>5\<^sup>3\<close> in magnitude are doubles.\<close>

lemma round64_safe_int:
  assumes "\<bar>n\<bar> \<le> 2 ^ 53"
  shows "round64 (of_int n) = Fin (of_int n)"
proof -
  have pos: "round64 (of_int k) = Fin (of_int k)" if "0 < k" "k \<le> 2 ^ 53" for k :: int
  proof (cases "k = 2 ^ 53")
    case True
    then show ?thesis using round64_pow53 by simp
  next
    case False
    then show ?thesis using that by (intro round64_pos_int) simp_all
  qed
  consider "n = 0" | "0 < n" | "n < 0" by linarith
  then show ?thesis
  proof cases
    case 1
    then show ?thesis by (simp add: round64_def)
  next
    case 2
    then show ?thesis using pos[of n] assms by simp
  next
    case 3
    then have "round64 (of_int (- n)) = Fin (of_int (- n))" using pos[of "- n"] assms by simp
    then have "num_neg (round64 (of_int n)) = Fin (- of_int n)"
      using round64_neg[of "of_int n"] by simp
    then show ?thesis by (cases "round64 (real_of_int n)") simp_all
  qed
qed

lemma num_add_safe_int:
  assumes "\<bar>a + b\<bar> \<le> 2 ^ 53"
  shows "num_add (Fin (of_int a)) (Fin (of_int b)) = Fin (of_int (a + b))"
  using round64_safe_int[OF assms] by simp

lemma num_add_pow53_3: "num_add (Fin (2 ^ 53)) (Fin 3) = Fin (2 ^ 53 + 4)"
  by (simp add: round64_def floor_log2_def pow2_def round_half_even_def Let_def bitlen_numeral)

text \<open>
  Evaluation of a sum: when the exact sum of two doubles is an integer of
  magnitude up to \<open>2\<^sup>5\<^sup>3\<close>, it is the result, without the rounding.
\<close>

lemma num_add_Fin:
  "num_add (Fin a) (Fin b) =
     (let s = a + b
      in if of_int \<lfloor>s\<rfloor> = s \<and> \<bar>s\<bar> \<le> 9007199254740992 then Fin s else round64 s)"
proof (cases "of_int \<lfloor>a + b\<rfloor> = a + b \<and> \<bar>a + b\<bar> \<le> 9007199254740992")
  case True
  note eq = True[THEN conjunct1] and le = True[THEN conjunct2]
  have "\<bar>real_of_int \<lfloor>a + b\<rfloor>\<bar> \<le> 9007199254740992" unfolding eq by (rule le)
  then have "\<bar>\<lfloor>a + b\<rfloor>\<bar> \<le> 9007199254740992" by linarith
  then have "\<bar>\<lfloor>a + b\<rfloor>\<bar> \<le> 2 ^ 53" by simp
  then have "round64 (of_int \<lfloor>a + b\<rfloor>) = Fin (of_int \<lfloor>a + b\<rfloor>)" by (rule round64_safe_int)
  then show ?thesis using True by (simp add: Let_def)
next
  case False
  show ?thesis by (simp only: Let_def if_not_P[OF False] num_add.simps)
qed

lemma num_add_code [code]:
  "num_add (Fin a) (Fin b) =
     (let s = a + b
      in if of_int \<lfloor>s\<rfloor> = s \<and> \<bar>s\<bar> \<le> 9007199254740992 then Fin s else round64 s)"
  "num_add NaN y = NaN"
  "num_add (Fin a) NaN = NaN"
  "num_add PosInf NaN = NaN"
  "num_add NegInf NaN = NaN"
  "num_add PosInf NegInf = NaN"
  "num_add NegInf PosInf = NaN"
  "num_add PosInf (Fin b) = PosInf"
  "num_add PosInf PosInf = PosInf"
  "num_add (Fin a) PosInf = PosInf"
  "num_add NegInf (Fin b) = NegInf"
  "num_add NegInf NegInf = NegInf"
  "num_add (Fin a) NegInf = NegInf"
  by (rule num_add_Fin) simp_all

section \<open>Properties of plain objects\<close>

lemma map_of_insert_index:
  "k \<notin> fst ` set obj \<Longrightarrow>
   map_of (insert_index i (k, v) obj) k' = (if k' = k then Some v else map_of obj k')"
  by (induction obj) (auto split: option.splits)

lemma keys_insert_index: "fst ` set (insert_index i kv obj) = insert (fst kv) (fst ` set obj)"
  by (induction obj) (auto split: option.splits)

lemma map_of_insert_property:
  "k \<notin> fst ` set obj \<Longrightarrow>
   map_of (insert_property k v obj) k' = (if k' = k then Some v else map_of obj k')"
proof -
  assume "k \<notin> fst ` set obj"
  then have n: "map_of obj k = None" by (simp add: map_of_eq_None_iff)
  show ?thesis
  proof (cases "array_index k")
    case None
    then show ?thesis
      using n by (cases "map_of obj k'") (auto simp: insert_property_def map_add_def)
  next
    case (Some i)
    then show ?thesis
      using \<open>k \<notin> fst ` set obj\<close> by (simp add: insert_property_def map_of_insert_index)
  qed
qed

lemma keys_insert_property: "fst ` set (insert_property k v obj) = insert k (fst ` set obj)"
  by (auto simp: insert_property_def keys_insert_index split: option.splits)

lemma keys_update: "fst ` set (AList.update k v obj) = insert k (fst ` set obj)"
  by (induction obj) auto

text \<open>
  Reading after an assignment: the assigned property has the assigned value,
  unless it is \<^verbatim>\<open>__proto__\<close> on an object without such an own property,
  and every other property is as before.
\<close>

lemma map_of_own_set:
  "map_of (own_set obj k v) k' =
     (if k' = k \<and> (k \<in> fst ` set obj \<or> k \<noteq> jsstr ''__proto__'') then Some v
      else map_of obj k')"
proof (cases "k \<in> fst ` set obj")
  case True
  then show ?thesis by (simp add: own_set_def update_conv')
next
  case False
  then have "map_of obj k = None" by (simp add: map_of_eq_None_iff)
  then show ?thesis using False by (auto simp: own_set_def map_of_insert_property)
qed

lemma keys_own_set:
  "fst ` set (own_set obj k v) =
     (if k \<in> fst ` set obj \<or> k \<noteq> jsstr ''__proto__'' then insert k (fst ` set obj)
      else fst ` set obj)"
  by (auto simp: own_set_def keys_update keys_insert_property)

lemma distinct_insert_index:
  "fst kv \<notin> fst ` set obj \<Longrightarrow> distinct (map fst obj) \<Longrightarrow>
   distinct (map fst (insert_index i kv obj))"
proof (induction obj)
  case Nil
  then show ?case by simp
next
  case (Cons e es)
  then have d: "distinct (map fst (insert_index i kv es))" by simp
  have "fst e \<notin> fst ` set (insert_index i kv es)"
    using Cons.prems by (auto simp: keys_insert_index)
  then show ?case using Cons.prems d by (auto split: option.splits)
qed

lemma distinct_own_set:
  "distinct (map fst obj) \<Longrightarrow> distinct (map fst (own_set obj k v))"
  by (auto simp: own_set_def distinct_update insert_property_def distinct_insert_index
      split: option.splits)

lemma js_get_cong: "map_of obj' k = map_of obj k \<Longrightarrow> js_get obj' k = js_get obj k"
  by (simp add: js_get_def)

lemma js_get_own: "map_of obj k = Some v \<Longrightarrow> js_get obj k = Prim v"
  by (simp add: js_get_def)

lemma js_get_absent:
  "map_of obj k = None \<Longrightarrow> k \<notin> set Object_prototype_names \<Longrightarrow> js_get obj k = Undefined"
  by (simp add: js_get_def)

lemma js_get_inherited:
  "map_of obj k = None \<Longrightarrow> k \<in> set Object_prototype_names \<Longrightarrow> js_get obj k = Member k"
  by (simp add: js_get_def)

lemma proto_inherited: "jsstr ''__proto__'' \<in> set Object_prototype_names"
  by (simp add: Object_prototype_names_def)

lemma map_of_own_set_alt:
  "map_of (own_set obj k v) k' =
     (if k' = k \<and> (map_of obj k \<noteq> None \<or> k \<noteq> jsstr ''__proto__'') then Some v
      else map_of obj k')"
  by (simp add: map_of_own_set map_of_eq_None_iff)

text \<open>
  \<^verbatim>\<open>(obj[key] || 0) + count\<close>, by what \<^verbatim>\<open>obj[key]\<close> finds: an own
  number, nothing, or an inherited member.
\<close>

lemma js_plus_own_number:
  assumes "map_of obj k = Some (Num (Fin (of_int n)))" and "\<bar>n + c\<bar> \<le> 2 ^ 53"
  shows "js_plus rt (or_zero (js_get obj k)) (Fin (of_int c)) = Num (Fin (of_int (n + c)))"
proof -
  have "or_zero (js_get obj k) = Prim (Num (Fin (of_int n)))"
    using assms(1) by (simp add: js_get_def or_zero_def)
  then show ?thesis using num_add_safe_int[OF assms(2)] by simp
qed

lemma js_plus_absent:
  assumes "map_of obj k = None" and "k \<notin> set Object_prototype_names" and "\<bar>c\<bar> \<le> 2 ^ 53"
  shows "js_plus rt (or_zero (js_get obj k)) (Fin (of_int c)) = Num (Fin (of_int c))"
proof -
  have "or_zero (js_get obj k) = Prim (Num (Fin (of_int 0)))"
    using assms(1,2) by (simp add: js_get_def or_zero_def)
  then show ?thesis using num_add_safe_int[of 0 c] assms(3) by simp
qed

lemma js_plus_inherited:
  assumes "map_of obj k = None" and "k \<in> set Object_prototype_names"
  shows "js_plus rt (or_zero (js_get obj k)) c = Str (member_text rt k @ number_text rt c)"
  using assms by (simp add: js_get_def or_zero_def)

section \<open>Properties of the usage tracker\<close>

text \<open>
  The update, property by property, for word counts without repeated names
  (the own properties of an object): a counted word gets the sum of
  \<^verbatim>\<open>newStats[word] || 0\<close> and its count, every other property is as
  before. The word \<^verbatim>\<open>__proto__\<close> without an own property gets none.
\<close>

lemma createStatsUpdater_Cons:
  "createStatsUpdater rt ((word, c) # wordCounts) prevStats =
     createStatsUpdater rt wordCounts
       (own_set prevStats word (js_plus rt (or_zero (js_get prevStats word)) c))"
  by (simp add: createStatsUpdater_def)

lemma createStatsUpdater_lookup:
  "distinct (map fst wordCounts) \<Longrightarrow>
   map_of (createStatsUpdater rt wordCounts prevStats) w =
     (case map_of wordCounts w of
        None \<Rightarrow> map_of prevStats w
      | Some c \<Rightarrow>
          if map_of prevStats w \<noteq> None \<or> w \<noteq> jsstr ''__proto__''
          then Some (js_plus rt (or_zero (js_get prevStats w)) c)
          else None)"
proof (induction wordCounts arbitrary: prevStats)
  case Nil
  then show ?case by (simp add: createStatsUpdater_def)
next
  case (Cons e wordCounts)
  obtain word c where e: "e = (word, c)" by (cases e)
  let ?s = "own_set prevStats word (js_plus rt (or_zero (js_get prevStats word)) c)"
  from Cons.prems e have d: "distinct (map fst wordCounts)"
    and fresh: "map_of wordCounts word = None"
    by (simp_all add: map_of_eq_None_iff)
  have ih: "map_of (createStatsUpdater rt wordCounts ?s) w =
     (case map_of wordCounts w of
        None \<Rightarrow> map_of ?s w
      | Some c \<Rightarrow>
          if map_of ?s w \<noteq> None \<or> w \<noteq> jsstr ''__proto__''
          then Some (js_plus rt (or_zero (js_get ?s w)) c)
          else None)"
    by (rule Cons.IH[OF d])
  show ?case
  proof (cases "w = word")
    case True
    have "map_of ?s word =
        (if map_of prevStats word \<noteq> None \<or> word \<noteq> jsstr ''__proto__''
         then Some (js_plus rt (or_zero (js_get prevStats word)) c) else map_of prevStats word)"
      by (simp add: map_of_own_set map_of_eq_None_iff)
    then show ?thesis
      using True fresh ih by (auto simp: e createStatsUpdater_Cons)
  next
    case False
    then have m: "map_of ?s w = map_of prevStats w" by (simp add: map_of_own_set)
    then have "js_get ?s w = js_get prevStats w" by (rule js_get_cong)
    then show ?thesis
      using False m ih by (auto simp: e createStatsUpdater_Cons split: option.splits)
  qed
qed

lemma find_upt_None: "find P [a..<b] = None \<Longrightarrow> filter P [a..<b] = []"
  by (simp add: find_None_iff filter_empty_conv)

lemma find_upt_Some:
  "find P [a..<b] = Some p \<Longrightarrow>
   a \<le> p \<and> p < b \<and> P p \<and> filter P [a..<b] = p # filter P [Suc p..<b]"
proof (induction "b - a" arbitrary: a)
  case 0
  then show ?case by simp
next
  case (Suc n)
  then have ab: "a < b" by simp
  then have up: "[a..<b] = a # [Suc a..<b]" by (simp add: upt_conv_Cons)
  show ?case
  proof (cases "P a")
    case True
    then show ?thesis using Suc.prems ab up by simp
  next
    case False
    then have "find P [Suc a..<b] = Some p" using Suc.prems up by simp
    moreover have "n = b - Suc a" using Suc.hyps(2) by simp
    ultimately have "Suc a \<le> p \<and> p < b \<and> P p \<and>
        filter P [Suc a..<b] = p # filter P [Suc p..<b]"
      using Suc.hyps(1) by blast
    then show ?thesis using False up by simp
  qed
qed

lemma indexOf_find:
  "k \<le> length text \<Longrightarrow>
   indexOf text word k = find (occurs_at word text) [k..<Suc (length text)]"
  by (simp add: indexOf_def min_def)

lemma count_loop_from:
  assumes "word \<noteq> []"
  shows "k \<le> length text \<Longrightarrow>
    count_loop text word cnt (indexOf text word k) =
      Some (cnt + int (length (filter (occurs_at word text) [k..<Suc (length text)])))"
proof (induction "Suc (length text) - k" arbitrary: k cnt rule: less_induct)
  case less
  show ?case
  proof (cases "indexOf text word k")
    case None
    then have "find (occurs_at word text) [k..<Suc (length text)] = None"
      by (simp only: indexOf_find[OF less.prems])
    then have "filter (occurs_at word text) [k..<Suc (length text)] = []"
      by (rule find_upt_None)
    then show ?thesis using None by (simp add: count_loop.simps del: upt_Suc)
  next
    case (Some p)
    then have f: "find (occurs_at word text) [k..<Suc (length text)] = Some p"
      by (simp only: indexOf_find[OF less.prems])
    have p: "k \<le> p" "occurs_at word text p"
      and fl: "filter (occurs_at word text) [k..<Suc (length text)] =
               p # filter (occurs_at word text) [Suc p..<Suc (length text)]"
      using find_upt_Some[OF f] by blast+
    have sp: "Suc p \<le> length text" using p(2) assms by (cases word) auto
    have "Suc (length text) - Suc p < Suc (length text) - k" using sp p(1) by simp
    then have "count_loop text word (cnt + 1) (indexOf text word (Suc p)) =
          Some (cnt + 1 + int (length (filter (occurs_at word text) [Suc p..<Suc (length text)])))"
      using less.hyps[of "Suc p" "cnt + 1"] sp by blast
    then show ?thesis
      using Some by (subst count_loop.simps) (simp add: fl del: upt_Suc)
  qed
qed

lemma count_loop_occurrences:
  "word \<noteq> [] \<Longrightarrow>
   count_loop text word 0 (indexOf text word 0) = Some (occurrences word text)"
  using count_loop_from[of word 0 "text" 0] by (simp add: occurrences_def del: upt_Suc)

lemma occurrences_nonneg: "0 \<le> occurrences word text"
  by (simp add: occurrences_def)

lemma occurrences_le: "occurrences word text \<le> int (length text) + 1"
proof -
  have "length (filter (occurs_at word text) [0..<Suc (length text)]) \<le>
        length [0..<Suc (length text)]"
    by (rule length_filter_le)
  then show ?thesis by (simp add: occurrences_def del: upt_Suc)
qed

lemma occurrences_safe:
  assumes "length text < 2 ^ 53"
  shows "\<bar>occurrences word text\<bar> \<le> 2 ^ 53"
proof -
  have "int (length text) < 2 ^ 53" using assms by (metis of_nat_less_iff of_nat_numeral of_nat_power)
  then show ?thesis using occurrences_le[of word "text"] occurrences_nonneg[of word "text"] by simp
qed

lemma countUsedWords_forEach_result:
  "[] \<notin> set ws \<Longrightarrow>
   \<exists>counts'. countUsedWords_forEach text ws counts = Some counts' \<and>
     (distinct (map fst counts) \<longrightarrow> distinct (map fst counts')) \<and>
     (\<forall>w. map_of counts' w =
        (if w \<in> set ws \<and> 0 < occurrences w text \<and>
            (map_of counts w \<noteq> None \<or> w \<noteq> jsstr ''__proto__'')
         then Some (Fin (of_int (occurrences w text)))
         else map_of counts w))"
proof (induction ws arbitrary: counts)
  case Nil
  then show ?case by simp
next
  case (Cons word ws)
  let ?c1 = "if 0 < occurrences word text
             then own_set counts word (Fin (of_int (occurrences word text))) else counts"
  from Cons.prems have ne: "word \<noteq> []" and rest: "[] \<notin> set ws" by auto
  from Cons.IH[OF rest, of ?c1] obtain counts' where
    r: "countUsedWords_forEach text ws ?c1 = Some counts'"
    and d: "distinct (map fst ?c1) \<longrightarrow> distinct (map fst counts')"
    and m: "\<forall>w. map_of counts' w =
        (if w \<in> set ws \<and> 0 < occurrences w text \<and>
            (map_of ?c1 w \<noteq> None \<or> w \<noteq> jsstr ''__proto__'')
         then Some (Fin (of_int (occurrences w text)))
         else map_of ?c1 w)"
    by blast
  have "countUsedWords_forEach text (word # ws) counts = Some counts'"
    using r by (simp add: count_loop_occurrences[OF ne])
  moreover have "distinct (map fst counts) \<longrightarrow> distinct (map fst counts')"
    using d by (simp add: distinct_own_set)
  moreover have "map_of counts' w =
        (if w \<in> set (word # ws) \<and> 0 < occurrences w text \<and>
            (map_of counts w \<noteq> None \<or> w \<noteq> jsstr ''__proto__'')
         then Some (Fin (of_int (occurrences w text)))
         else map_of counts w)" for w
    using m[rule_format, of w] by (auto simp: map_of_own_set_alt split: if_splits)
  ultimately show ?case by blast
qed

lemma countUsedWords_result:
  "[] \<notin> set (validHiraganaWords v) \<Longrightarrow>
   \<exists>counts. countUsedWords v text = Some counts \<and> distinct (map fst counts) \<and>
     (\<forall>w. map_of counts w =
        (if w \<in> set (validHiraganaWords v) \<and> 0 < occurrences w text \<and>
            w \<noteq> jsstr ''__proto__''
         then Some (Fin (of_int (occurrences w text))) else None))"
  using countUsedWords_forEach_result[of "validHiraganaWords v" "text" "[]"]
  unfolding countUsedWords_def by fastforce

text \<open>
  Claim C4. The update handler reads the previous count of a word with
  \<^verbatim>\<open>newStats[word] || 0\<close>. For the word \<^verbatim>\<open>constructor\<close>, absent from the
  statistics, this is not 0 but the member \<^verbatim>\<open>constructor\<close> that every
  plain object inherits: after a first text with one occurrence of the word,
  its entry is not the number 1 but a string, the text of the inherited
  member followed by \<^verbatim>\<open>1\<close>; a second such text appends another \<^verbatim>\<open>1\<close>
  to the string (in V8 it is then
  \<^verbatim>\<open>function Object() { [native code] }11\<close>); a correct visual answer for that word stores the text of the
  member followed by \<^verbatim>\<open>3\<close>. An ordinary absent word gets the number 1.
\<close>

theorem stats_run_inherited_member:
  "stats_run rt (handleStartPractice (jsstr ''constructor'') [])
     [Shown (jsstr ''constructor'')] [] =
     Some [(jsstr ''constructor'',
            Str (member_text rt (jsstr ''constructor'') @ number_text rt (Fin 1)))]
   \<and> stats_run example_runtime (handleStartPractice (jsstr ''constructor'') [])
     [Shown (jsstr ''constructor''), Shown (jsstr ''constructor'')] [] =
     Some [(jsstr ''constructor'', Str (jsstr ''function Object() { [native code] }11''))]
   \<and> stats_run rt (handleStartPractice (jsstr ''constructor'') [])
     [Submitted \<lparr> originalSentence = jsstr ''constructor'', maskedSentenceParts = ([], []),
                   targetWord = jsstr ''constructor'', romaji = [], polishTranslation = [],
                   imageBase64 = [] \<rparr> (jsstr ''constructor'')] [] =
     Some [(jsstr ''constructor'',
            Str (member_text rt (jsstr ''constructor'') @ number_text rt (Fin 3)))]
   \<and> stats_run rt (handleStartPractice [0x306D, 0x3053] []) [Shown [0x306D, 0x3053]] [] =
     Some [([0x306D, 0x3053], Num (Fin 1))]"
proof -
  have a: "stats_run rt (handleStartPractice (jsstr ''constructor'') [])
     [Shown (jsstr ''constructor'')] [] =
     Some [(jsstr ''constructor'',
            Str (member_text rt (jsstr ''constructor'') @ number_text rt (Fin 1)))]"
    apply code_simp
    apply simp
    done
  have b: "stats_run example_runtime (handleStartPractice (jsstr ''constructor'') [])
     [Shown (jsstr ''constructor''), Shown (jsstr ''constructor'')] [] =
     Some [(jsstr ''constructor'', Str (jsstr ''function Object() { [native code] }11''))]"
    by code_simp
  have c: "stats_run rt (handleStartPractice (jsstr ''constructor'') [])
     [Submitted \<lparr> originalSentence = jsstr ''constructor'', maskedSentenceParts = ([], []),
                   targetWord = jsstr ''constructor'', romaji = [], polishTranslation = [],
                   imageBase64 = [] \<rparr> (jsstr ''constructor'')] [] =
     Some [(jsstr ''constructor'',
            Str (member_text rt (jsstr ''constructor'') @ number_text rt (Fin 3)))]"
    by code_simp
  have d: "stats_run rt (handleStartPractice [0x306D, 0x3053] []) [Shown [0x306D, 0x3053]] [] =
     Some [([0x306D, 0x3053], Num (Fin 1))]"
    by code_simp
  show ?thesis by (intro conjI a b c d)
qed

text \<open>
  Claim C2 (amended). In reading and writing modes (the vocabulary has no
  empty word, the text is a JavaScript string) the scan of the text returns,
  with one entry for every valid word that occurs in the text, the word
  \<^verbatim>\<open>__proto__\<close> apart, and no other entry; the entry is the number of
  positions at which the word occurs, overlapping occurrences included, since
  the search resumes one position after each match. The update hands these
  counts to the update handler; it leaves every word without a count as it
  was, adds the count to a total that is an integer when the sum is at most
  \<open>2\<^sup>5\<^sup>3\<close> in magnitude, and gives a counted word without an entry,
  when it is not the name of a member of \<^verbatim>\<open>Object.prototype\<close>, its count
  as total. For the text \<^verbatim>\<open>NE KO GA NE KO WO MI RU\<close> and the word
  \<^verbatim>\<open>NE KO\<close> the count is 2.
\<close>

theorem countUsedWords_all_occurrences:
  assumes "[] \<notin> set (validHiraganaWords v)" and "length text < 2 ^ 53"
  shows "(\<exists>counts stats'.
           countUsedWords v text = Some counts \<and> distinct (map fst counts) \<and>
           (\<forall>w. map_of counts w =
              (if w \<in> set (validHiraganaWords v) \<and> 0 < occurrences w text \<and>
                  w \<noteq> jsstr ''__proto__''
               then Some (Fin (of_int (occurrences w text))) else None)) \<and>
           processNewSentence rt v text stats = Some stats' \<and>
           stats' = createStatsUpdater rt counts stats \<and>
           (\<forall>w. map_of counts w = None \<longrightarrow> map_of stats' w = map_of stats w) \<and>
           (\<forall>w n. map_of counts w \<noteq> None \<and> map_of stats w = Some (Num (Fin (of_int n))) \<and>
                  \<bar>n + occurrences w text\<bar> \<le> 2 ^ 53 \<longrightarrow>
                  map_of stats' w = Some (Num (Fin (of_int (n + occurrences w text))))) \<and>
           (\<forall>w. map_of counts w \<noteq> None \<and> map_of stats w = None \<and>
                w \<notin> set Object_prototype_names \<longrightarrow>
                map_of stats' w = Some (Num (Fin (of_int (occurrences w text))))))
     \<and> countUsedWords
         \<lparr> validHiraganaWords = [[0x306D, 0x3053]], learningWords = [],
           allowedCharacters = [[0x306D], [0x3053]] \<rparr>
         [0x306D, 0x3053, 0x304C, 0x306D, 0x3053, 0x3092, 0x307F, 0x308B] =
       Some [([0x306D, 0x3053], Fin 2)]"
proof -
  from countUsedWords_result[OF assms(1), of "text"] obtain counts where
    c: "countUsedWords v text = Some counts" and d: "distinct (map fst counts)"
    and m: "\<forall>w. map_of counts w =
        (if w \<in> set (validHiraganaWords v) \<and> 0 < occurrences w text \<and>
            w \<noteq> jsstr ''__proto__''
         then Some (Fin (of_int (occurrences w text))) else None)"
    by blast
  let ?s = "createStatsUpdater rt counts stats"
  have p: "processNewSentence rt v text stats = Some ?s"
    using c by (simp add: processNewSentence_def)
  note lk = createStatsUpdater_lookup[OF d, of rt stats]
  have cnt: "map_of counts w = Some (Fin (of_int (occurrences w text))) \<and>
             w \<noteq> jsstr ''__proto__''" if "map_of counts w \<noteq> None" for w
    using that m[rule_format, of w] by (simp split: if_splits)
  have u: "map_of ?s w = map_of stats w" if "map_of counts w = None" for w
    using that by (simp add: lk)
  have n: "map_of ?s w = Some (Num (Fin (of_int (n + occurrences w text))))"
    if "map_of counts w \<noteq> None \<and> map_of stats w = Some (Num (Fin (of_int n))) \<and>
        \<bar>n + occurrences w text\<bar> \<le> 2 ^ 53" for w n
  proof -
    from that have own: "map_of stats w = Some (Num (Fin (of_int n)))"
      and le: "\<bar>n + occurrences w text\<bar> \<le> 2 ^ 53" by blast+
    from that cnt[of w] have cw: "map_of counts w = Some (Fin (of_int (occurrences w text)))"
      by blast
    show ?thesis
      by (simp add: lk cw own js_plus_own_number[OF own le])
  qed
  have a: "map_of ?s w = Some (Num (Fin (of_int (occurrences w text))))"
    if "map_of counts w \<noteq> None \<and> map_of stats w = None \<and> w \<notin> set Object_prototype_names"
    for w
  proof -
    from that have ab: "map_of stats w = None" and np: "w \<notin> set Object_prototype_names"
      by blast+
    from that cnt[of w] have cw: "map_of counts w = Some (Fin (of_int (occurrences w text)))"
      and pr: "w \<noteq> jsstr ''__proto__''" by blast+
    show ?thesis
      by (simp add: lk cw ab pr js_plus_absent[OF ab np occurrences_safe[OF assms(2)]])
  qed
  have ex: "countUsedWords
         \<lparr> validHiraganaWords = [[0x306D, 0x3053]], learningWords = [],
           allowedCharacters = [[0x306D], [0x3053]] \<rparr>
         [0x306D, 0x3053, 0x304C, 0x306D, 0x3053, 0x3092, 0x307F, 0x308B] =
       Some [([0x306D, 0x3053], Fin 2)]"
    by code_simp
  have "\<exists>counts stats'.
           countUsedWords v text = Some counts \<and> distinct (map fst counts) \<and>
           (\<forall>w. map_of counts w =
              (if w \<in> set (validHiraganaWords v) \<and> 0 < occurrences w text \<and>
                  w \<noteq> jsstr ''__proto__''
               then Some (Fin (of_int (occurrences w text))) else None)) \<and>
           processNewSentence rt v text stats = Some stats' \<and>
           stats' = createStatsUpdater rt counts stats \<and>
           (\<forall>w. map_of counts w = None \<longrightarrow> map_of stats' w = map_of stats w) \<and>
           (\<forall>w n. map_of counts w \<noteq> None \<and> map_of stats w = Some (Num (Fin (of_int n))) \<and>
                  \<bar>n + occurrences w text\<bar> \<le> 2 ^ 53 \<longrightarrow>
                  map_of stats' w = Some (Num (Fin (of_int (n + occurrences w text))))) \<and>
           (\<forall>w. map_of counts w \<noteq> None \<and> map_of stats w = None \<and>
                w \<notin> set Object_prototype_names \<longrightarrow>
                map_of stats' w = Some (Num (Fin (of_int (occurrences w text)))))"
    using c d m p u n a by (intro exI[of _ counts] exI[of _ ?s]) blast
  then show ?thesis using ex by (rule conjI)
qed

theorem countUsedWords_all_occurrences_witness:
  "[] \<notin> set (validHiraganaWords (handleStartPractice [0x3082, 0x3082, 0x0020, 0x306D, 0x3053] []))
   \<and> length [0x3082, 0x3082, 0x3082 :: jschar] < 2 ^ 53
   \<and> (\<exists>counts stats'.
         countUsedWords (handleStartPractice [0x3082, 0x3082, 0x0020, 0x306D, 0x3053] [])
           [0x3082, 0x3082, 0x3082] = Some counts \<and>
         counts = [([0x3082, 0x3082], Fin 2)] \<and>
         processNewSentence example_runtime
           (handleStartPractice [0x3082, 0x3082, 0x0020, 0x306D, 0x3053] [])
           [0x3082, 0x3082, 0x3082] [([0x3082, 0x3082], Num (Fin 5))] = Some stats' \<and>
         map_of stats' [0x3082, 0x3082] = Some (Num (Fin 7)) \<and>
         map_of stats' [0x306D, 0x3053] = None)"
proof -
  let ?v = "handleStartPractice [0x3082, 0x3082, 0x0020, 0x306D, 0x3053] []"
  let ?t = "[0x3082, 0x3082, 0x3082] :: jsstring"
  let ?s = "[([0x3082, 0x3082], Num (Fin 5))] :: WordStats"
  have h: "[] \<notin> set (validHiraganaWords ?v)" by code_simp
  have l: "length ?t < 2 ^ 53" by simp
  have e1: "countUsedWords ?v ?t = Some [([0x3082, 0x3082], Fin 2)]"
    by code_simp
  have o: "occurrences [0x3082, 0x3082] ?t = 2" by code_simp
  from countUsedWords_all_occurrences[OF h l, of example_runtime ?s] obtain counts stats' where
    c: "countUsedWords ?v ?t = Some counts"
    and p: "processNewSentence example_runtime ?v ?t ?s = Some stats'"
    and u: "\<forall>w. map_of counts w = None \<longrightarrow> map_of stats' w = map_of ?s w"
    and n: "\<forall>w n. map_of counts w \<noteq> None \<and> map_of ?s w = Some (Num (Fin (of_int n))) \<and>
                  \<bar>n + occurrences w ?t\<bar> \<le> 2 ^ 53 \<longrightarrow>
                  map_of stats' w = Some (Num (Fin (of_int (n + occurrences w ?t))))"
    by blast
  from c e1 have ce: "counts = [([0x3082, 0x3082], Fin 2)]" by simp
  have "map_of counts [0x3082, 0x3082] \<noteq> None \<and>
        map_of ?s [0x3082, 0x3082] = Some (Num (Fin (of_int 5))) \<and>
        \<bar>5 + occurrences [0x3082, 0x3082] ?t\<bar> \<le> 2 ^ 53"
    unfolding ce o by simp
  with n have "map_of stats' [0x3082, 0x3082] =
      Some (Num (Fin (of_int (5 + occurrences [0x3082, 0x3082] ?t))))"
    by blast
  then have r1: "map_of stats' [0x3082, 0x3082] = Some (Num (Fin 7))"
    unfolding o by simp
  have "map_of counts [0x306D, 0x3053] = None" unfolding ce by simp
  with u have "map_of stats' [0x306D, 0x3053] = map_of ?s [0x306D, 0x3053]" by blast
  then have r2: "map_of stats' [0x306D, 0x3053] = None" by simp
  have "\<exists>counts stats'.
         countUsedWords ?v ?t = Some counts \<and>
         counts = [([0x3082, 0x3082], Fin 2)] \<and>
         processNewSentence example_runtime ?v ?t ?s = Some stats' \<and>
         map_of stats' [0x3082, 0x3082] = Some (Num (Fin 7)) \<and>
         map_of stats' [0x306D, 0x3053] = None"
    using c ce p r1 r2 by blast
  with h l show ?thesis by (intro conjI)
qed

theorem countUsedWords_nonoverlapping_counterexample:
  "countUsedWords (handleStartPractice [0x3082, 0x3082] []) [0x3082, 0x3082, 0x3082] =
     Some [([0x3082, 0x3082], Fin 2)]
   \<and> nonoverlapping_count [0x3082, 0x3082] [0x3082, 0x3082, 0x3082] = 1"
  by code_simp

text \<open>
  Claim C8 (amended). In visual mode a submitted answer changes the
  statistics only when it is correct; the update handler then gets the single
  count 3 for the target word, whatever the sentence around the target word
  contains, and the entry of every other word is as before. The target
  word's total grows by exactly 3 when it is an integer and the sum is at
  most \<open>2\<^sup>5\<^sup>3\<close> in magnitude; a target word without an entry, when it
  is not the name of a member of \<^verbatim>\<open>Object.prototype\<close>, gets the total 3.
  Without a current quiz nothing changes.
\<close>

theorem handleSubmit_visual_weight:
  "(isCorrect_visual userInput (targetWord quiz) \<longrightarrow>
      snd (handleSubmit rt (Some quiz) userInput (vs, stats)) =
        createStatsUpdater rt [(targetWord quiz, Fin 3)] stats \<and>
      (\<forall>w. w \<noteq> targetWord quiz \<longrightarrow>
         map_of (snd (handleSubmit rt (Some quiz) userInput (vs, stats))) w = map_of stats w) \<and>
      (\<forall>n. map_of stats (targetWord quiz) = Some (Num (Fin (of_int n))) \<and>
            \<bar>n + 3\<bar> \<le> 2 ^ 53 \<longrightarrow>
         map_of (snd (handleSubmit rt (Some quiz) userInput (vs, stats))) (targetWord quiz) =
           Some (Num (Fin (of_int (n + 3))))) \<and>
      (map_of stats (targetWord quiz) = None \<and>
       targetWord quiz \<notin> set Object_prototype_names \<longrightarrow>
         map_of (snd (handleSubmit rt (Some quiz) userInput (vs, stats))) (targetWord quiz) =
           Some (Num (Fin 3))))
   \<and> (\<not> isCorrect_visual userInput (targetWord quiz) \<longrightarrow>
        snd (handleSubmit rt (Some quiz) userInput (vs, stats)) = stats)
   \<and> (snd (handleSubmit rt (Some quiz) userInput (vs, stats)) \<noteq> stats \<longrightarrow>
        isCorrect_visual userInput (targetWord quiz))
   \<and> handleSubmit rt None userInput (vs, stats) = (vs, stats)"
proof (cases "isCorrect_visual userInput (targetWord quiz)")
  case True
  let ?t = "targetWord quiz"
  let ?s = "createStatsUpdater rt [(?t, Fin 3)] stats"
  have s: "snd (handleSubmit rt (Some quiz) userInput (vs, stats)) = ?s"
    using True by (simp add: handleSubmit_def)
  have lk: "map_of ?s w =
     (case map_of [(?t, Fin 3 :: jsnum)] w of
        None \<Rightarrow> map_of stats w
      | Some c \<Rightarrow>
          if map_of stats w \<noteq> None \<or> w \<noteq> jsstr ''__proto__''
          then Some (js_plus rt (or_zero (js_get stats w)) c)
          else None)" for w
    by (rule createStatsUpdater_lookup) simp
  have o: "map_of ?s w = map_of stats w" if "w \<noteq> ?t" for w
    using that by (simp add: lk)
  have n: "map_of ?s ?t = Some (Num (Fin (of_int (n + 3))))"
    if "map_of stats ?t = Some (Num (Fin (of_int n))) \<and> \<bar>n + 3\<bar> \<le> 2 ^ 53" for n
  proof -
    from that have own: "map_of stats ?t = Some (Num (Fin (of_int n)))"
      and le: "\<bar>n + 3\<bar> \<le> 2 ^ 53" by blast+
    show ?thesis using js_plus_own_number[OF own le, of rt] by (simp add: lk own)
  qed
  have a: "map_of ?s ?t = Some (Num (Fin 3))"
    if "map_of stats ?t = None \<and> ?t \<notin> set Object_prototype_names"
  proof -
    from that have ab: "map_of stats ?t = None" and np: "?t \<notin> set Object_prototype_names"
      by blast+
    have pr: "?t \<noteq> jsstr ''__proto__''" using np proto_inherited by auto
    have "\<bar>3 :: int\<bar> \<le> 2 ^ 53" by simp
    from js_plus_absent[OF ab np this, of rt] show ?thesis by (simp add: lk pr)
  qed
  have x: "handleSubmit rt None userInput (vs, stats) = (vs, stats)"
    by (simp add: handleSubmit_def)
  show ?thesis
    unfolding s using True x o n a by blast
next
  case False
  then have s: "snd (handleSubmit rt (Some quiz) userInput (vs, stats)) = stats"
    by (simp add: handleSubmit_def)
  have x: "handleSubmit rt None userInput (vs, stats) = (vs, stats)"
    by (simp add: handleSubmit_def)
  show ?thesis
    unfolding s using False x by simp
qed

theorem handleSubmit_visual_weight_witness:
  "isCorrect_visual [0x306D, 0x0020, 0x3053]
     (targetWord \<lparr> originalSentence = [0x306D, 0x3053, 0x304C, 0x3082, 0x3082],
                         maskedSentenceParts = ([], [0x304C, 0x3082, 0x3082]),
                         targetWord = [0x306D, 0x3053], romaji = [], polishTranslation = [],
                         imageBase64 = [] \<rparr>)
   \<and> map_of [([0x306D, 0x3053], Num (Fin 1)), ([0x3082, 0x3082], Num (Fin 2))] [0x306D, 0x3053 :: jschar]
       = Some (Num (Fin (of_int 1)))
   \<and> \<bar>1 + 3 :: int\<bar> \<le> 2 ^ 53
   \<and> map_of (snd (handleSubmit example_runtime
        (Some \<lparr> originalSentence = [0x306D, 0x3053, 0x304C, 0x3082, 0x3082],
                         maskedSentenceParts = ([], [0x304C, 0x3082, 0x3082]),
                         targetWord = [0x306D, 0x3053], romaji = [], polishTranslation = [],
                         imageBase64 = [] \<rparr>)
        [0x306D, 0x0020, 0x3053]
        (Idle, [([0x306D, 0x3053], Num (Fin 1)), ([0x3082, 0x3082], Num (Fin 2))])))
        [0x306D, 0x3053] = Some (Num (Fin 4))
   \<and> snd (handleSubmit example_runtime
        (Some \<lparr> originalSentence = [0x306D, 0x3053, 0x304C, 0x3082, 0x3082],
                         maskedSentenceParts = ([], [0x304C, 0x3082, 0x3082]),
                         targetWord = [0x306D, 0x3053], romaji = [], polishTranslation = [],
                         imageBase64 = [] \<rparr>)
        [0x306D, 0x0020, 0x3053]
        (Idle, [([0x306D, 0x3053], Num (Fin 1)), ([0x3082, 0x3082], Num (Fin 2))])) =
      [([0x306D, 0x3053], Num (Fin 4)), ([0x3082, 0x3082], Num (Fin 2))]
   \<and> \<not> isCorrect_visual [0x3082, 0x3082]
     (targetWord \<lparr> originalSentence = [0x306D, 0x3053, 0x304C, 0x3082, 0x3082],
                         maskedSentenceParts = ([], [0x304C, 0x3082, 0x3082]),
                         targetWord = [0x306D, 0x3053], romaji = [], polishTranslation = [],
                         imageBase64 = [] \<rparr>)
   \<and> snd (handleSubmit example_runtime
        (Some \<lparr> originalSentence = [0x306D, 0x3053, 0x304C, 0x3082, 0x3082],
                         maskedSentenceParts = ([], [0x304C, 0x3082, 0x3082]),
                         targetWord = [0x306D, 0x3053], romaji = [], polishTranslation = [],
                         imageBase64 = [] \<rparr>)
        [0x3082, 0x3082]
        (Idle, [([0x306D, 0x3053], Num (Fin 1)), ([0x3082, 0x3082], Num (Fin 2))])) =
      [([0x306D, 0x3053], Num (Fin 1)), ([0x3082, 0x3082], Num (Fin 2))]"
proof -
  let ?q = "\<lparr> originalSentence = [0x306D, 0x3053, 0x304C, 0x3082, 0x3082],
                         maskedSentenceParts = ([], [0x304C, 0x3082, 0x3082]),
                         targetWord = [0x306D, 0x3053], romaji = [], polishTranslation = [],
                         imageBase64 = [] \<rparr>"
  let ?s = "[([0x306D, 0x3053], Num (Fin 1)), ([0x3082, 0x3082], Num (Fin 2))] :: WordStats"
  have a: "isCorrect_visual [0x306D, 0x0020, 0x3053] (targetWord ?q)" by code_simp
  have b: "\<not> isCorrect_visual [0x3082, 0x3082] (targetWord ?q)" by code_simp
  have c: "snd (handleSubmit example_runtime (Some ?q) [0x306D, 0x0020, 0x3053] (Idle, ?s)) =
           [([0x306D, 0x3053], Num (Fin 4)), ([0x3082, 0x3082], Num (Fin 2))]" by code_simp
  have m: "map_of ?s [0x306D, 0x3053 :: jschar] = Some (Num (Fin (of_int 1)))" by simp
  have m': "map_of ?s (targetWord ?q) = Some (Num (Fin (of_int 1)))" by simp
  have le: "\<bar>1 + 3 :: int\<bar> \<le> 2 ^ 53" by simp
  note t1 = handleSubmit_visual_weight[of "[0x306D, 0x0020, 0x3053]" ?q example_runtime Idle ?s]
  note t2 = handleSubmit_visual_weight[of "[0x3082, 0x3082]" ?q example_runtime Idle ?s]
  note k = conjunct1[OF conjunct2[OF conjunct2[OF mp[OF conjunct1[OF t1] a]]]]
  have "map_of (snd (handleSubmit example_runtime (Some ?q) [0x306D, 0x0020, 0x3053] (Idle, ?s)))
          (targetWord ?q) = Some (Num (Fin (of_int (1 + 3))))"
    using mp[OF spec[OF k, of 1] conjI[OF m' le]] .
  then have g: "map_of (snd (handleSubmit example_runtime (Some ?q) [0x306D, 0x0020, 0x3053]
          (Idle, ?s))) [0x306D, 0x3053] = Some (Num (Fin 4))"
    by simp
  have d: "snd (handleSubmit example_runtime (Some ?q) [0x3082, 0x3082] (Idle, ?s)) = ?s"
    using mp[OF conjunct1[OF conjunct2[OF t2]] b] .
  show ?thesis by (intro conjI a m le g c b d)
qed

theorem handleSubmit_rounding_counterexample:
  "isCorrect_visual [0x306D, 0x0020, 0x3053] [0x306D, 0x3053]
   \<and> snd (handleSubmit example_runtime
        (Some \<lparr> originalSentence = [0x306D, 0x3053, 0x304C, 0x3082, 0x3082],
                 maskedSentenceParts = ([], [0x304C, 0x3082, 0x3082]),
                 targetWord = [0x306D, 0x3053], romaji = [], polishTranslation = [],
                 imageBase64 = [] \<rparr>)
        [0x306D, 0x0020, 0x3053] (Idle, [([0x306D, 0x3053], Num (Fin (2 ^ 53)))])) =
      [([0x306D, 0x3053], Num (Fin (2 ^ 53 + 4)))]
   \<and> Fin (2 ^ 53 + 4) \<noteq> Fin (2 ^ 53 + 3)"
proof -
  have c: "isCorrect_visual [0x306D, 0x0020, 0x3053] [0x306D, 0x3053]" by code_simp
  have "own_set [([0x306D, 0x3053 :: jschar], Num (Fin (2 ^ 53)))] [0x306D, 0x3053]
          (Num (Fin (2 ^ 53 + 4))) =
        [([0x306D, 0x3053], Num (Fin (2 ^ 53 + 4)))]"
    by (simp add: own_set_def)
  moreover have "js_plus example_runtime
          (or_zero (js_get [([0x306D, 0x3053 :: jschar], Num (Fin (2 ^ 53)))] [0x306D, 0x3053]))
          (Fin 3) = Num (Fin (2 ^ 53 + 4))"
    using num_add_pow53_3 by (simp add: js_get_def or_zero_def del: num_add.simps)
  ultimately have "createStatsUpdater example_runtime [([0x306D, 0x3053], Fin 3)]
          [([0x306D, 0x3053], Num (Fin (2 ^ 53)))] =
        [([0x306D, 0x3053], Num (Fin (2 ^ 53 + 4)))]"
    by (simp only: createStatsUpdater_def foldl.simps prod.case)
  then have "snd (handleSubmit example_runtime
        (Some \<lparr> originalSentence = [0x306D, 0x3053, 0x304C, 0x3082, 0x3082],
                 maskedSentenceParts = ([], [0x304C, 0x3082, 0x3082]),
                 targetWord = [0x306D, 0x3053], romaji = [], polishTranslation = [],
                 imageBase64 = [] \<rparr>)
        [0x306D, 0x0020, 0x3053] (Idle, [([0x306D, 0x3053], Num (Fin (2 ^ 53)))])) =
      [([0x306D, 0x3053], Num (Fin (2 ^ 53 + 4)))]"
    using c by (simp only: handleSubmit_def option.case Let_def VisualQuizData.simps if_True
        snd_conv)
  moreover have "Fin (2 ^ 53 + 4) \<noteq> Fin (2 ^ 53 + 3)" by simp
  ultimately show ?thesis using c by (intro conjI)
qed

section \<open>Properties of start-up\<close>

lemma load_stats_total:
  "\<exists>r. load_stats JSON_parse saved stats = Inr r \<and>
       ((\<exists>s e. saved = Some s \<and> JSON_parse s = Inl e) \<longrightarrow> r = stats)"
  by (auto simp: load_stats_def try_catch_def split: option.splits sum.splits)

lemma initialize_result:
  assumes r: "load_stats JSON_parse (localStorage ''hiragana_practice_reading_stats'') [] = Inr r"
    and w: "load_stats JSON_parse (localStorage ''hiragana_practice_writing_stats'') [] = Inr w"
    and v: "load_stats JSON_parse (localStorage ''hiragana_practice_visual_stats'') [] = Inr v"
  shows "\<exists>app. initialize envKey localStorage JSON_parse App_initial = Inr app \<and>
           isInitialized app \<and> readingStats app = r \<and> writingStats app = w \<and>
           visualStats app = v"
  using r w v
  by (simp add: initialize_def App_initial_def Let_def split: option.splits)

text \<open>
  Claim C9. Start-up always completes: the initialisation effect returns an
  application state, never an error, and the state is marked initialised; for
  each of the three modes, when the stored statistics string does not parse,
  the mode's statistics are the empty mapping.
\<close>

theorem initialize_recovers:
  "\<exists>app. initialize envKey localStorage JSON_parse App_initial = Inr app \<and>
      isInitialized app \<and>
      ((\<exists>s e. localStorage ''hiragana_practice_reading_stats'' = Some s \<and> JSON_parse s = Inl e)
         \<longrightarrow> readingStats app = []) \<and>
      ((\<exists>s e. localStorage ''hiragana_practice_writing_stats'' = Some s \<and> JSON_parse s = Inl e)
         \<longrightarrow> writingStats app = []) \<and>
      ((\<exists>s e. localStorage ''hiragana_practice_visual_stats'' = Some s \<and> JSON_parse s = Inl e)
         \<longrightarrow> visualStats app = [])"
proof -
  obtain r where r: "load_stats JSON_parse (localStorage ''hiragana_practice_reading_stats'') [] = Inr r"
    "(\<exists>s e. localStorage ''hiragana_practice_reading_stats'' = Some s \<and> JSON_parse s = Inl e)
       \<longrightarrow> r = []"
    using load_stats_total by blast
  obtain w where w: "load_stats JSON_parse (localStorage ''hiragana_practice_writing_stats'') [] = Inr w"
    "(\<exists>s e. localStorage ''hiragana_practice_writing_stats'' = Some s \<and> JSON_parse s = Inl e)
       \<longrightarrow> w = []"
    using load_stats_total by blast
  obtain v where v: "load_stats JSON_parse (localStorage ''hiragana_practice_visual_stats'') [] = Inr v"
    "(\<exists>s e. localStorage ''hiragana_practice_visual_stats'' = Some s \<and> JSON_parse s = Inl e)
       \<longrightarrow> v = []"
    using load_stats_total by blast
  from initialize_result[OF r(1) w(1) v(1)] obtain app where
    "initialize envKey localStorage JSON_parse App_initial = Inr app"
    "isInitialized app" "readingStats app = r" "writingStats app = w" "visualStats app = v"
    by blast
  then show ?thesis using r(2) w(2) v(2) by (intro exI[of _ app]) simp
qed

theorem initialize_recovers_witness:
  "(\<exists>s e. example_localStorage ''hiragana_practice_reading_stats'' = Some s \<and>
           example_JSON_parse s = Inl e)
   \<and> (\<exists>app. initialize None example_localStorage example_JSON_parse App_initial = Inr app \<and>
        isInitialized app \<and> readingStats app = [])"
proof -
  have h: "\<exists>s e. example_localStorage ''hiragana_practice_reading_stats'' = Some s \<and>
             example_JSON_parse s = Inl e"
    by (simp add: example_localStorage_def example_JSON_parse_def)
  from initialize_recovers[of None example_localStorage example_JSON_parse] obtain app where
    a: "initialize None example_localStorage example_JSON_parse App_initial = Inr app"
       "isInitialized app"
    and b: "(\<exists>s e. example_localStorage ''hiragana_practice_reading_stats'' = Some s \<and>
               example_JSON_parse s = Inl e) \<longrightarrow> readingStats app = []"
    by blast
  from b h have "readingStats app = []" by (rule mp)
  with a have "\<exists>app. initialize None example_localStorage example_JSON_parse App_initial = Inr app \<and>
        isInitialized app \<and> readingStats app = []" by blast
  with h show ?thesis by (rule conjI)
qed

section \<open>Properties of suggestion selection\<close>

lemma pools_rearranged_facts:
  assumes "pools_rearranged rt sort_with v wordStats"
  shows "length (sort_with (sortByUsage rt wordStats) (learningWords v)) = length (learningWords v)"
    "set (sort_with (sortByUsage rt wordStats) (learningWords v)) = set (learningWords v)"
    "distinct (sort_with (sortByUsage rt wordStats) (learningWords v)) =
       distinct (learningWords v)"
    "length (sort_with (sortByUsage rt wordStats) (knownPool v)) = length (knownPool v)"
    "set (sort_with (sortByUsage rt wordStats) (knownPool v)) = set (knownPool v)"
    "distinct (sort_with (sortByUsage rt wordStats) (knownPool v)) = distinct (knownPool v)"
proof -
  from assms have
    l: "mset (sort_with (sortByUsage rt wordStats) (learningWords v)) = mset (learningWords v)"
    and k: "mset (sort_with (sortByUsage rt wordStats) (knownPool v)) = mset (knownPool v)"
    by (simp_all add: pools_rearranged_def)
  show "length (sort_with (sortByUsage rt wordStats) (learningWords v)) =
      length (learningWords v)"
    using l by (rule mset_eq_length)
  show "set (sort_with (sortByUsage rt wordStats) (learningWords v)) = set (learningWords v)"
    using l by (rule mset_eq_setD)
  show "distinct (sort_with (sortByUsage rt wordStats) (learningWords v)) =
      distinct (learningWords v)"
    using l by (rule mset_eq_imp_distinct_iff)
  show "length (sort_with (sortByUsage rt wordStats) (knownPool v)) = length (knownPool v)"
    using k by (rule mset_eq_length)
  show "set (sort_with (sortByUsage rt wordStats) (knownPool v)) = set (knownPool v)"
    using k by (rule mset_eq_setD)
  show "distinct (sort_with (sortByUsage rt wordStats) (knownPool v)) = distinct (knownPool v)"
    using k by (rule mset_eq_imp_distinct_iff)
qed

lemma knownPool_disjoint: "set (knownPool v) \<inter> set (learningWords v) = {}"
  by (auto simp: knownPool_def)

lemma getSuggestedWords_parts:
  "getSuggestedWords rt sort_with v wordStats =
     take (min 3 (length (sort_with (sortByUsage rt wordStats) (learningWords v))))
       (sort_with (sortByUsage rt wordStats) (learningWords v)) @
     take (nat (max 0 (5 - int (length
        (take (min 3 (length (sort_with (sortByUsage rt wordStats) (learningWords v))))
           (sort_with (sortByUsage rt wordStats) (learningWords v)))))))
       (sort_with (sortByUsage rt wordStats) (knownPool v))"
  by (simp add: getSuggestedWords_def Let_def)

text \<open>
  The sizes and the order of the suggestion list, for a vocabulary without
  duplicate words in its two lists and a sort that rearranges: at most 5
  words, no duplicates, min(3, size of the learning pool) learning words
  first, then min(size of the known pool, max(0, 5 - learningTaken)) known
  words. Which words of a pool are taken is the sort's choice.
\<close>

lemma getSuggestedWords_sizes:
  assumes dv: "distinct (validHiraganaWords v)" and dl: "distinct (learningWords v)"
    and ps: "pools_rearranged rt sort_with v wordStats"
  shows "length (getSuggestedWords rt sort_with v wordStats) \<le> 5
     \<and> distinct (getSuggestedWords rt sort_with v wordStats)
     \<and> (\<exists>selectedLearning selectedKnown.
          getSuggestedWords rt sort_with v wordStats = selectedLearning @ selectedKnown \<and>
          set selectedLearning \<subseteq> set (learningWords v) \<and>
          length selectedLearning = min 3 (length (learningWords v)) \<and>
          set selectedKnown \<subseteq> set (knownPool v) \<and>
          length selectedKnown =
            min (length (knownPool v)) (nat (max 0 (5 - int (length selectedLearning)))))"
proof -
  let ?sl = "sort_with (sortByUsage rt wordStats) (learningWords v)"
  let ?sk = "sort_with (sortByUsage rt wordStats) (knownPool v)"
  let ?L = "take (min 3 (length ?sl)) ?sl"
  let ?K = "take (nat (max 0 (5 - int (length ?L)))) ?sk"
  note f = pools_rearranged_facts[OF ps]
  have r: "getSuggestedWords rt sort_with v wordStats = ?L @ ?K"
    by (rule getSuggestedWords_parts)
  have lenL: "length ?L = min 3 (length (learningWords v))" using f(1) by simp
  have lenK: "length ?K = min (length (knownPool v)) (nat (max 0 (5 - int (length ?L))))"
    using f(4) by simp
  have subL: "set ?L \<subseteq> set (learningWords v)" using f(2) set_take_subset[of _ ?sl] by blast
  have subK: "set ?K \<subseteq> set (knownPool v)" using f(5) set_take_subset[of _ ?sk] by blast
  have ar: "n + k \<le> 5" if "n \<le> 3" "k \<le> nat (max 0 (5 - int n))" for n k :: nat
    using that by linarith
  have "length ?L \<le> 3" by simp
  moreover have "length ?K \<le> nat (max 0 (5 - int (length ?L)))" by simp
  ultimately have "length ?L + length ?K \<le> 5" by (rule ar)
  then have len: "length (?L @ ?K) \<le> 5" by simp
  have "distinct (knownPool v)" using dv by (simp add: knownPool_def)
  then have "distinct ?K" using f(6) by simp
  moreover have "distinct ?L" using f(3) dl by simp
  moreover have "set ?L \<inter> set ?K = {}" using subL subK knownPool_disjoint[of v] by blast
  ultimately have dis: "distinct (?L @ ?K)" by simp
  have "\<exists>selectedLearning selectedKnown.
          getSuggestedWords rt sort_with v wordStats = selectedLearning @ selectedKnown \<and>
          set selectedLearning \<subseteq> set (learningWords v) \<and>
          length selectedLearning = min 3 (length (learningWords v)) \<and>
          set selectedKnown \<subseteq> set (knownPool v) \<and>
          length selectedKnown =
            min (length (knownPool v)) (nat (max 0 (5 - int (length selectedLearning))))"
    using r subL lenL subK lenK
    by (intro exI[of _ ?L] exI[of _ ?K] conjI)
  then show ?thesis using len dis unfolding r by (intro conjI)
qed

text \<open>
  Claim C3. The comparator reads the count of a word with
  \<^verbatim>\<open>wordStats[a] || 0\<close>. For the learning words
  \<^verbatim>\<open>a constructor b c d\<close> and the statistics a: 5, b: 1, c: 2, d: 3, the
  word \<^verbatim>\<open>constructor\<close> has no entry and its count is not 0 but the
  inherited member, so the comparator answers NaN for it against \<^verbatim>\<open>a\<close>
  and against \<^verbatim>\<open>b\<close>, whatever \<^verbatim>\<open>Math.random()\<close> returns. A sort reads
  NaN as 0, that is, as "leave in this order", and the comparator asks for no
  neighbours of the learning pool to be exchanged; the insertion sort leaves
  the pool as it is, and the suggestion list is \<^verbatim>\<open>a\<close>, \<^verbatim>\<open>constructor\<close>,
  \<^verbatim>\<open>b\<close>: the word \<^verbatim>\<open>a\<close>, used 5 times, is selected, and the words
  \<^verbatim>\<open>c\<close> and \<^verbatim>\<open>d\<close>, used 2 and 3 times, are not.
\<close>

theorem getSuggestedWords_inherited_member:
  "learningWords (handleStartPractice [] (jsstr ''a constructor b c d'')) =
     [jsstr ''a'', jsstr ''constructor'', jsstr ''b'', jsstr ''c'', jsstr ''d'']
   \<and> knownPool (handleStartPractice [] (jsstr ''a constructor b c d'')) = []
   \<and> sortByUsage rt
       [(jsstr ''a'', Num (Fin 5)), (jsstr ''b'', Num (Fin 1)), (jsstr ''c'', Num (Fin 2)),
        (jsstr ''d'', Num (Fin 3))] random (jsstr ''a'') (jsstr ''constructor'') = NaN
   \<and> sortByUsage rt
       [(jsstr ''a'', Num (Fin 5)), (jsstr ''b'', Num (Fin 1)), (jsstr ''c'', Num (Fin 2)),
        (jsstr ''d'', Num (Fin 3))] random (jsstr ''constructor'') (jsstr ''a'') = NaN
   \<and> sortByUsage rt
       [(jsstr ''a'', Num (Fin 5)), (jsstr ''b'', Num (Fin 1)), (jsstr ''c'', Num (Fin 2)),
        (jsstr ''d'', Num (Fin 3))] random (jsstr ''constructor'') (jsstr ''b'') = NaN
   \<and> sortByUsage rt
       [(jsstr ''a'', Num (Fin 5)), (jsstr ''b'', Num (Fin 1)), (jsstr ''c'', Num (Fin 2)),
        (jsstr ''d'', Num (Fin 3))] random (jsstr ''b'') (jsstr ''constructor'') = NaN
   \<and> sortByUsage rt
       [(jsstr ''a'', Num (Fin 5)), (jsstr ''b'', Num (Fin 1)), (jsstr ''c'', Num (Fin 2)),
        (jsstr ''d'', Num (Fin 3))] random (jsstr ''b'') (jsstr ''c'') = Fin (- 1)
   \<and> sortByUsage rt
       [(jsstr ''a'', Num (Fin 5)), (jsstr ''b'', Num (Fin 1)), (jsstr ''c'', Num (Fin 2)),
        (jsstr ''d'', Num (Fin 3))] random (jsstr ''c'') (jsstr ''d'') = Fin (- 1)
   \<and> getSuggestedWords rt (insertion_sort random)
       (handleStartPractice [] (jsstr ''a constructor b c d''))
       [(jsstr ''a'', Num (Fin 5)), (jsstr ''b'', Num (Fin 1)), (jsstr ''c'', Num (Fin 2)),
        (jsstr ''d'', Num (Fin 3))] =
     [jsstr ''a'', jsstr ''constructor'', jsstr ''b'']"
proof -
  let ?v = "handleStartPractice [] (jsstr ''a constructor b c d'')"
  let ?s = "[(jsstr ''a'', Num (Fin 5)), (jsstr ''b'', Num (Fin 1)), (jsstr ''c'', Num (Fin 2)),
        (jsstr ''d'', Num (Fin 3))]"
  have l: "learningWords ?v =
      [jsstr ''a'', jsstr ''constructor'', jsstr ''b'', jsstr ''c'', jsstr ''d'']"
    by code_simp
  have k: "knownPool ?v = []" by code_simp
  have c1: "sortByUsage rt ?s random (jsstr ''a'') (jsstr ''constructor'') = NaN" by code_simp
  have c2: "sortByUsage rt ?s random (jsstr ''constructor'') (jsstr ''a'') = NaN" by code_simp
  have c3: "sortByUsage rt ?s random (jsstr ''constructor'') (jsstr ''b'') = NaN" by code_simp
  have c4: "sortByUsage rt ?s random (jsstr ''b'') (jsstr ''constructor'') = NaN" by code_simp
  have c5: "sortByUsage rt ?s random (jsstr ''b'') (jsstr ''c'') = Fin (- 1)" by code_simp
  have c6: "sortByUsage rt ?s random (jsstr ''c'') (jsstr ''d'') = Fin (- 1)" by code_simp
  have g: "getSuggestedWords rt (insertion_sort random) ?v ?s =
      [jsstr ''a'', jsstr ''constructor'', jsstr ''b'']"
    by code_simp
  show ?thesis by (intro conjI l k c1 c2 c3 c4 c5 c6 g)
qed

text \<open>
  Claim C10. For every vocabulary whose known pool is empty and whose
  learning pool has more than 3 words, when the runtime's sort rearranges,
  the suggestion list has exactly 3 words, all of them learning words.
\<close>

theorem getSuggestedWords_learning_cap:
  assumes "knownPool v = []" and "3 < length (learningWords v)"
    and "pools_rearranged rt sort_with v wordStats"
  shows "length (getSuggestedWords rt sort_with v wordStats) = 3
     \<and> set (getSuggestedWords rt sort_with v wordStats) \<subseteq> set (learningWords v)"
proof -
  let ?sl = "sort_with (sortByUsage rt wordStats) (learningWords v)"
  let ?sk = "sort_with (sortByUsage rt wordStats) (knownPool v)"
  note f = pools_rearranged_facts[OF assms(3)]
  have k: "?sk = []" using f(4) assms(1) by simp
  have "getSuggestedWords rt sort_with v wordStats = take 3 ?sl"
    using assms(2) f(1) k by (simp add: getSuggestedWords_parts)
  moreover have "length (take 3 ?sl) = 3" using assms(2) f(1) by simp
  moreover have "set (take 3 ?sl) \<subseteq> set (learningWords v)"
    using f(2) set_take_subset[of 3 ?sl] by blast
  ultimately show ?thesis by simp
qed

theorem getSuggestedWords_learning_cap_witness:
  "knownPool (handleStartPractice []
       [0x3042, 0x0020, 0x3044, 0x0020, 0x3046, 0x0020, 0x3048, 0x0020, 0x304A]) = []
   \<and> 3 < length (learningWords (handleStartPractice []
       [0x3042, 0x0020, 0x3044, 0x0020, 0x3046, 0x0020, 0x3048, 0x0020, 0x304A]))
   \<and> pools_rearranged example_runtime (insertion_sort (1 / 2)) (handleStartPractice []
       [0x3042, 0x0020, 0x3044, 0x0020, 0x3046, 0x0020, 0x3048, 0x0020, 0x304A])
       [([0x3042], Num (Fin 1))]
   \<and> getSuggestedWords example_runtime (insertion_sort (1 / 2)) (handleStartPractice []
       [0x3042, 0x0020, 0x3044, 0x0020, 0x3046, 0x0020, 0x3048, 0x0020, 0x304A])
       [([0x3042], Num (Fin 1))] = [[0x3044], [0x3046], [0x3048]]
   \<and> length (getSuggestedWords example_runtime (insertion_sort (1 / 2)) (handleStartPractice []
       [0x3042, 0x0020, 0x3044, 0x0020, 0x3046, 0x0020, 0x3048, 0x0020, 0x304A])
       [([0x3042], Num (Fin 1))]) = 3"
proof -
  let ?v = "handleStartPractice []
       [0x3042, 0x0020, 0x3044, 0x0020, 0x3046, 0x0020, 0x3048, 0x0020, 0x304A]"
  let ?s = "[([0x3042], Num (Fin 1))] :: WordStats"
  have l: "learningWords ?v = [[0x3042], [0x3044], [0x3046], [0x3048], [0x304A]]" by code_simp
  have k: "knownPool ?v = []" by code_simp
  have sl: "insertion_sort (1 / 2) (sortByUsage example_runtime ?s)
        [[0x3042], [0x3044], [0x3046], [0x3048], [0x304A]] =
      [[0x3044], [0x3046], [0x3048], [0x304A], [0x3042]]"
    by code_simp
  have sk: "insertion_sort (1 / 2) (sortByUsage example_runtime ?s) [] = []"
    by code_simp
  have n: "3 < length (learningWords ?v)" unfolding l by simp
  have ps: "pools_rearranged example_runtime (insertion_sort (1 / 2)) ?v ?s"
    unfolding pools_rearranged_def l k sl sk by simp
  have r: "getSuggestedWords example_runtime (insertion_sort (1 / 2)) ?v ?s =
      [[0x3044], [0x3046], [0x3048]]"
    by code_simp
  note t = getSuggestedWords_learning_cap[OF k n ps]
  show ?thesis by (intro conjI k n ps r conjunct1[OF t])
qed

section \<open>Properties of the prefetch pipeline\<close>

lemma run_Nil: "run [] = PracticeScreen_initial"
  by (simp add: run_def)

lemma run_snoc: "run (evs @ [e]) = step e (run evs)"
  by (simp add: run_def)

lemma queueNextSentence_eq:
  "queueNextSentence s =
     s\<lparr>requests := requests s @ [(Prefetch, Pending)],
       bufferPromiseRef := Some (length (requests s))\<rparr>"
  by (simp add: queueNextSentence_def generateSentence_def)

lemma resume_ok_eq:
  "queueNextSentence (processNewSentence_display p s) =
     s\<lparr>currentData := Some p, shown := shown s @ [p],
       requests := requests s @ [(Prefetch, Pending)],
       bufferPromiseRef := Some (length (requests s))\<rparr>"
  by (simp add: queueNextSentence_eq processNewSentence_display_def)

lemma pipeline_inv_initial: "pipeline_inv PracticeScreen_initial"
  by (simp add: pipeline_inv_def PracticeScreen_initial_def)

lemma pipeline_inv_mount:
  assumes "pipeline_inv s"
  shows "pipeline_inv (useEffect_mount s)"
proof (cases "mountedRef s")
  case True
  then show ?thesis using assms by (simp add: useEffect_mount_def)
next
  case False
  then have f: "requests s = []" "bufferPromiseRef s = None" "awaiting s = None"
    "\<not> isTransitioning s"
    using assms by (simp_all add: pipeline_inv_def)
  have "useEffect_mount s =
      s\<lparr>mountedRef := True, isInitialLoading := True, requests := [(Initial, Pending)],
        awaiting := Some (InitAwait, 0)\<rparr>"
    using False f by (simp add: useEffect_mount_def generateSentence_def)
  then show ?thesis using f assms by (simp add: pipeline_inv_def)
qed

text \<open>A new prefetch is queued while no prefetch is pending, by a function that is done.\<close>

lemma pipeline_inv_queue:
  assumes "pipeline_inv s" "mountedRef s"
    and "\<forall>i<length (requests s). requests s ! i \<noteq> (Prefetch, Pending)"
  shows "pipeline_inv (s\<lparr>requests := requests s @ [(Prefetch, Pending)],
       bufferPromiseRef := Some (length (requests s)), error := e, isTransitioning := False,
       isInitialLoading := False, awaiting := None, currentData := c, shown := sh\<rparr>)"
  using assms
  by (simp add: pipeline_inv_def nth_append)

lemma pipeline_invI:
  assumes "\<And>i. i < length (requests s) \<Longrightarrow> requests s ! i = (Prefetch, Pending) \<Longrightarrow>
             bufferPromiseRef s = Some i"
    and "\<And>b. bufferPromiseRef s = Some b \<Longrightarrow> b < length (requests s)"
    and "awaiting s = None \<Longrightarrow> \<not> isTransitioning s \<and> (mountedRef s \<longrightarrow> \<not> isInitialLoading s)"
    and "\<And>p. awaiting s = Some (InitAwait, p) \<Longrightarrow>
          isInitialLoading s \<and> \<not> isTransitioning s \<and> mountedRef s \<and>
          bufferPromiseRef s = None \<and>
          (\<forall>i<length (requests s). fst (requests s ! i) = Initial)"
    and "\<And>p. awaiting s = Some (NextAwait, p) \<Longrightarrow>
          isTransitioning s \<and> \<not> isInitialLoading s \<and> mountedRef s \<and>
          bufferPromiseRef s = Some p"
    and "\<not> mountedRef s \<Longrightarrow>
          requests s = [] \<and> bufferPromiseRef s = None \<and> isInitialLoading s \<and>
          awaiting s = None"
    and "error s \<Longrightarrow> \<not> isTransitioning s"
  shows "pipeline_inv s"
  unfolding pipeline_inv_def using assms by blast

lemma pipeline_inv_buffer:
  "pipeline_inv s \<Longrightarrow> bufferPromiseRef s = Some b \<Longrightarrow> b < length (requests s)"
  unfolding pipeline_inv_def by blast

lemma pipeline_inv_idle:
  "pipeline_inv s \<Longrightarrow> awaiting s = None \<Longrightarrow>
   \<not> isTransitioning s \<and> (mountedRef s \<longrightarrow> \<not> isInitialLoading s)"
  unfolding pipeline_inv_def by blast

lemma pipeline_inv_init:
  "pipeline_inv s \<Longrightarrow> awaiting s = Some (InitAwait, p) \<Longrightarrow>
   isInitialLoading s \<and> \<not> isTransitioning s \<and> mountedRef s \<and>
   bufferPromiseRef s = None \<and> (\<forall>i<length (requests s). fst (requests s ! i) = Initial)"
  unfolding pipeline_inv_def by blast

lemma pipeline_inv_next:
  "pipeline_inv s \<Longrightarrow> awaiting s = Some (NextAwait, p) \<Longrightarrow>
   isTransitioning s \<and> \<not> isInitialLoading s \<and> mountedRef s \<and> bufferPromiseRef s = Some p"
  unfolding pipeline_inv_def by blast

lemma pipeline_inv_unmounted:
  "pipeline_inv s \<Longrightarrow> \<not> mountedRef s \<Longrightarrow>
   requests s = [] \<and> bufferPromiseRef s = None \<and> isInitialLoading s \<and> awaiting s = None"
  unfolding pipeline_inv_def by blast

lemma pipeline_inv_error: "pipeline_inv s \<Longrightarrow> error s \<Longrightarrow> \<not> isTransitioning s"
  unfolding pipeline_inv_def by blast

lemma pipeline_inv_pending:
  "pipeline_inv s \<Longrightarrow> i < length (requests s) \<Longrightarrow> requests s ! i = (Prefetch, Pending) \<Longrightarrow>
   bufferPromiseRef s = Some i"
  unfolding pipeline_inv_def by blast

lemma pipeline_inv_no_pending:
  assumes "pipeline_inv s" "bufferPromiseRef s = None"
  shows "\<forall>i<length (requests s). requests s ! i \<noteq> (Prefetch, Pending)"
  using assms by (simp add: pipeline_inv_def)

lemma pipeline_inv_no_pending_settled:
  assumes "pipeline_inv s" "bufferPromiseRef s = Some b" "snd (requests s ! b) \<noteq> Pending"
  shows "\<forall>i<length (requests s). requests s ! i \<noteq> (Prefetch, Pending)"
proof (intro allI impI)
  fix i assume i: "i < length (requests s)"
  show "requests s ! i \<noteq> (Prefetch, Pending)"
  proof
    assume p: "requests s ! i = (Prefetch, Pending)"
    then have "bufferPromiseRef s = Some i" using assms(1) i by (intro pipeline_inv_pending)
    then have "i = b" using assms(2) by simp
    then show False using p assms(3) by simp
  qed
qed

lemma pipeline_inv_handleNext:
  assumes inv: "pipeline_inv s" and en: "awaiting s = None" "mountedRef s" "\<not> isInitialLoading s"
  shows "pipeline_inv (handleNextSentence s)"
proof (cases "bufferPromiseRef s")
  case None
  have np: "\<forall>i<length (requests s). requests s ! i \<noteq> (Prefetch, Pending)"
    using pipeline_inv_no_pending[OF inv None] .
  have "handleNextSentence s =
      s\<lparr>error := False, isTransitioning := True,
        requests := requests s @ [(Prefetch, Pending)],
        bufferPromiseRef := Some (length (requests s)),
        awaiting := Some (NextAwait, length (requests s))\<rparr>"
    using None by (simp add: handleNextSentence_def queueNextSentence_eq)
  then show ?thesis using inv en np by (simp add: pipeline_inv_def nth_append)
next
  case (Some b)
  show ?thesis
  proof (cases "snd (requests s ! b)")
    case Pending
    have "handleNextSentence s =
        s\<lparr>error := False, isTransitioning := True, awaiting := Some (NextAwait, b)\<rparr>"
      using Some Pending by (simp add: handleNextSentence_def)
    then show ?thesis using inv en Some by (simp add: pipeline_inv_def)
  next
    case Fulfilled
    have np: "\<forall>i<length (requests s). requests s ! i \<noteq> (Prefetch, Pending)"
      using pipeline_inv_no_pending_settled[OF inv Some] Fulfilled by simp
    have "handleNextSentence s =
        s\<lparr>requests := requests s @ [(Prefetch, Pending)],
       bufferPromiseRef := Some (length (requests s)), error := False, isTransitioning := False,
       isInitialLoading := False, awaiting := None, currentData := Some b,
       shown := shown s @ [b]\<rparr>"
      using Some Fulfilled en
      by (simp add: handleNextSentence_def next_resume_def resume_ok_eq)
    then show ?thesis using pipeline_inv_queue[OF inv en(2) np] by simp
  next
    case Rejected
    have np: "\<forall>i<length (requests s). requests s ! i \<noteq> (Prefetch, Pending)"
      using pipeline_inv_no_pending_settled[OF inv Some] Rejected by simp
    have "handleNextSentence s =
        s\<lparr>error := True, bufferPromiseRef := None, isTransitioning := False\<rparr>"
      using Some Rejected by (simp add: handleNextSentence_def next_resume_def)
    then show ?thesis using inv en np by (simp add: pipeline_inv_def)
  qed
qed

lemma pipeline_inv_settle:
  assumes inv: "pipeline_inv s"
  shows "pipeline_inv (settle p ok s)"
proof (cases "p < length (requests s) \<and> snd (requests s ! p) = Pending")
  case False
  have "settle p ok s = s" unfolding settle_def by (rule if_not_P[OF False])
  then show ?thesis using inv by simp
next
  case True
  let ?r = "(requests s)[p := (fst (requests s ! p), if ok then Fulfilled else Rejected)]"
  let ?s1 = "s\<lparr>requests := ?r\<rparr>"
  have len: "length ?r = length (requests s)" by simp
  have upd: "?r ! i \<noteq> (Prefetch, Pending)"
    if "i < length (requests s)" "requests s ! i \<noteq> (Prefetch, Pending) \<or> i = p" for i
    using that by (cases "i = p") (auto simp: nth_list_update)
  have keep: "bufferPromiseRef s = Some i"
    if "i < length (requests s)" "?r ! i = (Prefetch, Pending)" for i
  proof -
    have "i \<noteq> p" using that upd by blast
    then have "requests s ! i = (Prefetch, Pending)" using that by (simp add: nth_list_update)
    then show ?thesis using inv that(1) by (intro pipeline_inv_pending)
  qed
  have fsts: "fst (?r ! i) = fst (requests s ! i)" if "i < length (requests s)" for i
    using that by (cases "i = p") (simp_all add: nth_list_update)
  have inv1: "pipeline_inv ?s1"
  proof (rule pipeline_invI)
    fix i assume "i < length (requests ?s1)" "requests ?s1 ! i = (Prefetch, Pending)"
    then show "bufferPromiseRef ?s1 = Some i" using keep[of i] by simp
  next
    fix b assume "bufferPromiseRef ?s1 = Some b"
    then show "b < length (requests ?s1)" using pipeline_inv_buffer[OF inv, of b] by simp
  next
    assume "awaiting ?s1 = None"
    then show "\<not> isTransitioning ?s1 \<and> (mountedRef ?s1 \<longrightarrow> \<not> isInitialLoading ?s1)"
      using pipeline_inv_idle[OF inv] by simp
  next
    fix q assume "awaiting ?s1 = Some (InitAwait, q)"
    then show "isInitialLoading ?s1 \<and> \<not> isTransitioning ?s1 \<and> mountedRef ?s1 \<and>
          bufferPromiseRef ?s1 = None \<and>
          (\<forall>i<length (requests ?s1). fst (requests ?s1 ! i) = Initial)"
      using pipeline_inv_init[OF inv, of q] fsts by simp
  next
    fix q assume "awaiting ?s1 = Some (NextAwait, q)"
    then show "isTransitioning ?s1 \<and> \<not> isInitialLoading ?s1 \<and> mountedRef ?s1 \<and>
          bufferPromiseRef ?s1 = Some q"
      using pipeline_inv_next[OF inv, of q] by simp
  next
    assume "\<not> mountedRef ?s1"
    then have "requests s = []" using pipeline_inv_unmounted[OF inv] by simp
    then show "requests ?s1 = [] \<and> bufferPromiseRef ?s1 = None \<and> isInitialLoading ?s1 \<and>
          awaiting ?s1 = None"
      using True by simp
  next
    assume "error ?s1"
    then show "\<not> isTransitioning ?s1" using pipeline_inv_error[OF inv] by simp
  qed
  show ?thesis
  proof (cases "awaiting s")
    case None
    then have "settle p ok s = ?s1" using True by (simp add: settle_def)
    then show ?thesis using inv1 by simp
  next
    case (Some a)
    obtain f q where a: "a = (f, q)" by (cases a)
    show ?thesis
    proof (cases "q = p")
      case False
      then have "settle p ok s = ?s1" using True Some a by (simp add: settle_def)
      then show ?thesis using inv1 by simp
    next
      case qp: True
      have st: "settle p ok s = resume f ok p (?s1\<lparr>awaiting := None\<rparr>)"
        using True Some a qp by (simp add: settle_def)
      show ?thesis
      proof (cases f)
        case InitAwait
        then have aw: "awaiting s = Some (InitAwait, p)" using Some a qp by simp
        then have i: "isInitialLoading s" "\<not> isTransitioning s" "mountedRef s"
          "bufferPromiseRef s = None" "\<forall>i<length (requests s). fst (requests s ! i) = Initial"
          using pipeline_inv_init[OF inv] by blast+
        have np: "\<forall>i<length (requests ?s1). requests ?s1 ! i \<noteq> (Prefetch, Pending)"
        proof (intro allI impI)
      fix j assume "j < length (requests ?s1)"
      then have "fst (?r ! j) = Initial" using i(5) fsts[of j] by simp
      then show "requests ?s1 ! j \<noteq> (Prefetch, Pending)" by auto
    qed
        show ?thesis
        proof (cases ok)
          case True
          have "settle p ok s =
            ?s1\<lparr>requests := requests ?s1 @ [(Prefetch, Pending)],
              bufferPromiseRef := Some (length (requests ?s1)), error := error s,
              isTransitioning := False, isInitialLoading := False, awaiting := None,
              currentData := Some p, shown := shown s @ [p]\<rparr>"
            using st InitAwait True i(2) by (simp add: init_resume_def resume_ok_eq)
          moreover have "mountedRef ?s1" using i(3) by simp
          ultimately show ?thesis
            using pipeline_inv_queue[OF inv1 _ np, where e="error s" and c="Some p"
                and sh="shown s @ [p]"] True
            by simp
        next
          case False
          have "settle p ok s = ?s1\<lparr>awaiting := None, error := True, isInitialLoading := False\<rparr>"
            using st InitAwait False by (simp add: init_resume_def)
          then show ?thesis using inv1 aw i unfolding pipeline_inv_def by simp
        qed
      next
        case NextAwait
        then have aw: "awaiting s = Some (NextAwait, p)" using Some a qp by simp
        then have i: "isTransitioning s" "\<not> isInitialLoading s" "mountedRef s"
          "bufferPromiseRef s = Some p"
          using pipeline_inv_next[OF inv] by blast+
        have np: "\<forall>i<length (requests ?s1). requests ?s1 ! i \<noteq> (Prefetch, Pending)"
        proof (intro allI impI)
          fix i assume "i < length (requests ?s1)"
          then have il: "i < length (requests s)" by simp
          show "requests ?s1 ! i \<noteq> (Prefetch, Pending)"
          proof (cases "i = p")
            case True
            then show ?thesis using upd[OF il] by simp
          next
            case False
            then have "requests s ! i \<noteq> (Prefetch, Pending)"
              using pipeline_inv_pending[OF inv il] i(4) by auto
            then show ?thesis using upd[OF il] by simp
          qed
        qed
        show ?thesis
        proof (cases ok)
          case True
          have "settle p ok s =
            ?s1\<lparr>requests := requests ?s1 @ [(Prefetch, Pending)],
              bufferPromiseRef := Some (length (requests ?s1)), error := error s,
              isTransitioning := False, isInitialLoading := False, awaiting := None,
              currentData := Some p, shown := shown s @ [p]\<rparr>"
            using st NextAwait True i(2) by (simp add: next_resume_def resume_ok_eq)
          moreover have "mountedRef ?s1" using i(3) by simp
          ultimately show ?thesis
            using pipeline_inv_queue[OF inv1 _ np, where e="error s" and c="Some p"
                and sh="shown s @ [p]"] True
            by simp
        next
          case False
          have "settle p ok s =
            ?s1\<lparr>awaiting := None, error := True, bufferPromiseRef := None,
               isTransitioning := False\<rparr>"
            using st NextAwait False by (simp add: next_resume_def)
          then show ?thesis using inv1 aw i np unfolding pipeline_inv_def by simp
        qed
      qed
    qed
  qed
qed

lemma pipeline_inv_enabled:
  assumes inv: "pipeline_inv s" and "\<not> isTransitioning s" "\<not> isInitialLoading s"
  shows "awaiting s = None \<and> mountedRef s"
proof -
  have "awaiting s = None"
  proof (cases "awaiting s")
    case None
    then show ?thesis .
  next
    case (Some a)
    obtain f q where a: "a = (f, q)" by (cases a)
    show ?thesis
    proof (cases f)
      case InitAwait
      then show ?thesis using pipeline_inv_init[OF inv, of q] Some a assms(3) by simp
    next
      case NextAwait
      then show ?thesis using pipeline_inv_next[OF inv, of q] Some a assms(2) by simp
    qed
  qed
  moreover have "mountedRef s" using pipeline_inv_unmounted[OF inv] assms(3) by blast
  ultimately show ?thesis by simp
qed

lemma pipeline_inv_step:
  assumes inv: "pipeline_inv s"
  shows "pipeline_inv (step e s)"
proof (cases e)
  case Mount
  then show ?thesis using pipeline_inv_mount[OF inv] by simp
next
  case (Settle p ok)
  then show ?thesis using pipeline_inv_settle[OF inv] by simp
next
  case ClickNext
  show ?thesis
  proof (cases "isTransitioning s \<or> isInitialLoading s")
    case True
    then show ?thesis using ClickNext inv by simp
  next
    case False
    then have "awaiting s = None" "mountedRef s" "\<not> isInitialLoading s"
      using pipeline_inv_enabled[OF inv] by simp_all
    then show ?thesis using ClickNext False pipeline_inv_handleNext[OF inv] by simp
  qed
next
  case ClickRetry
  show ?thesis
  proof (cases "\<not> isInitialLoading s \<and> error s")
    case False
    then show ?thesis using ClickRetry inv by auto
  next
    case True
    then have "\<not> isTransitioning s" using inv unfolding pipeline_inv_def by blast
    then have "awaiting s = None" "mountedRef s" "\<not> isInitialLoading s"
      using True pipeline_inv_enabled[OF inv] by simp_all
    then show ?thesis using ClickRetry True pipeline_inv_handleNext[OF inv] by simp
  qed
qed

lemma pipeline_inv_run: "pipeline_inv (run evs)"
  by (induction evs rule: rev_induct) (simp_all add: run_Nil run_snoc pipeline_inv_initial pipeline_inv_step)

lemma filter_at_most_one:
  assumes "\<forall>i<length xs. \<forall>j<length xs. P (xs ! i) \<and> P (xs ! j) \<longrightarrow> i = j"
  shows "length (filter P xs) \<le> 1"
  using assms
proof (induction xs)
  case Nil
  then show ?case by simp
next
  case (Cons x xs)
  have ih: "length (filter P xs) \<le> 1"
  proof (rule Cons.IH, intro allI impI)
    fix i j assume "i < length xs" "j < length xs" "P (xs ! i) \<and> P (xs ! j)"
    then have "Suc i = Suc j" using Cons.prems[rule_format, of "Suc i" "Suc j"] by simp
    then show "i = j" by simp
  qed
  show ?case
  proof (cases "P x")
    case False
    then show ?thesis using ih by simp
  next
    case True
    have "\<not> P y" if "y \<in> set xs" for y
    proof
      assume py: "P y"
      from that obtain j where j: "j < length xs" "xs ! j = y" by (auto simp: in_set_conv_nth)
      have "0 = Suc j" using Cons.prems[rule_format, of 0 "Suc j"] True py j by simp
      then show False by simp
    qed
    then have "filter P xs = []" by (simp add: filter_empty_conv)
    then show ?thesis using True by simp
  qed
qed

lemma prefetches_pending_le_one: "prefetches_pending (run evs) \<le> 1"
proof -
  have inv: "pipeline_inv (run evs)" by (rule pipeline_inv_run)
  have "\<forall>i<length (requests (run evs)). \<forall>j<length (requests (run evs)).
      requests (run evs) ! i = (Prefetch, Pending) \<and> requests (run evs) ! j = (Prefetch, Pending)
      \<longrightarrow> i = j"
    using pipeline_inv_pending[OF inv] by (metis option.inject)
  then show ?thesis unfolding prefetches_pending_def by (rule filter_at_most_one)
qed

lemma no_failure_snoc:
  "no_failure (evs @ [e]) = (no_failure evs \<and> (case e of Settle p ok \<Rightarrow> ok | _ \<Rightarrow> True))"
  by (induction evs rule: no_failure.induct) (auto split: event.splits)

lemma prefetches_issued_update:
  "prefetches_issued (s\<lparr>requests := (requests s)[p := (fst (requests s ! p), st)]\<rparr>) =
   prefetches_issued s"
proof -
  have "map fst ((requests s)[p := (fst (requests s ! p), st)]) = map fst (requests s)"
  proof (cases "p < length (requests s)")
    case True
    then have "(map fst (requests s))[p := fst (requests s ! p)] =
        (map fst (requests s))[p := map fst (requests s) ! p]" by simp
    then show ?thesis by (simp add: map_update)
  next
    case False
    then have "length (requests s) \<le> p" by simp
    then show ?thesis by (simp add: list_update_beyond)
  qed
  then have "filter (\<lambda>k. k = Prefetch) (map fst ((requests s)[p := (fst (requests s ! p), st)])) =
        filter (\<lambda>k. k = Prefetch) (map fst (requests s))"
    by simp
  then have "length (filter ((\<lambda>k. k = Prefetch) \<circ> fst) ((requests s)[p := (fst (requests s ! p), st)])) =
        length (filter ((\<lambda>k. k = Prefetch) \<circ> fst) (requests s))"
    unfolding filter_map by (metis length_map)
  then show ?thesis by (simp add: prefetches_issued_def comp_def)
qed

text \<open>The two phases of a failure-free execution.\<close>

lemma count_inv_before:
  assumes "count_inv s" "shown s = []"
  shows "\<not> error s" "isInitialLoading s" "\<not> isTransitioning s" "bufferPromiseRef s = None"
    "mountedRef s \<Longrightarrow> requests s = [(Initial, Pending)] \<and> awaiting s = Some (InitAwait, 0)"
    "\<not> mountedRef s \<Longrightarrow> requests s = [] \<and> awaiting s = None"
  using assms unfolding count_inv_def by blast+

lemma count_inv_beforeI:
  assumes "shown s = []" "\<not> error s" "isInitialLoading s" "\<not> isTransitioning s"
    "bufferPromiseRef s = None"
    "mountedRef s \<Longrightarrow> requests s = [(Initial, Pending)] \<and> awaiting s = Some (InitAwait, 0)"
    "\<not> mountedRef s \<Longrightarrow> requests s = [] \<and> awaiting s = None"
    "\<forall>i<length (requests s). snd (requests s ! i) \<noteq> Rejected"
  shows "count_inv s"
  unfolding count_inv_def using assms by blast

lemma count_inv_after:
  assumes "count_inv s" "shown s \<noteq> []"
  shows "\<not> error s" "mountedRef s" "\<not> isInitialLoading s"
    "prefetches_issued s = length (shown s)"
    "length (requests s) = length (shown s) + 1"
    "\<exists>b. bufferPromiseRef s = Some b \<and> b < length (requests s)"
    "awaiting s = None \<and> \<not> isTransitioning s \<or>
     isTransitioning s \<and> (\<exists>p. awaiting s = Some (NextAwait, p) \<and> bufferPromiseRef s = Some p)"
  using assms unfolding count_inv_def by blast+

lemma count_inv_no_rejected:
  "count_inv s \<Longrightarrow> \<forall>i<length (requests s). snd (requests s ! i) \<noteq> Rejected"
  unfolding count_inv_def by blast

lemma count_inv_afterI:
  assumes "shown s \<noteq> []" "\<not> error s" "mountedRef s" "\<not> isInitialLoading s"
    "prefetches_issued s = length (shown s)"
    "length (requests s) = length (shown s) + 1"
    "\<exists>b. bufferPromiseRef s = Some b \<and> b < length (requests s)"
    "awaiting s = None \<and> \<not> isTransitioning s \<or>
     isTransitioning s \<and> (\<exists>p. awaiting s = Some (NextAwait, p) \<and> bufferPromiseRef s = Some p)"
    "\<forall>i<length (requests s). snd (requests s ! i) \<noteq> Rejected"
  shows "count_inv s"
  unfolding count_inv_def using assms by blast

text \<open>An advance completes: the sentence of the fulfilled prefetch is shown, a new one queued.\<close>

lemma count_inv_advance:
  assumes c: "count_inv s" and sh: "shown s \<noteq> []"
  shows "count_inv (s\<lparr>requests := requests s @ [(Prefetch, Pending)],
       bufferPromiseRef := Some (length (requests s)), error := False, isTransitioning := False,
       isInitialLoading := False, awaiting := None, currentData := Some p,
       shown := shown s @ [p]\<rparr>)"
proof (rule count_inv_afterI)
  let ?s' = "s\<lparr>requests := requests s @ [(Prefetch, Pending)],
       bufferPromiseRef := Some (length (requests s)), error := False, isTransitioning := False,
       isInitialLoading := False, awaiting := None, currentData := Some p,
       shown := shown s @ [p]\<rparr>"
  note a = count_inv_after[OF c sh] and r = count_inv_no_rejected[OF c]
  show "shown ?s' \<noteq> []" by simp
  show "\<not> error ?s'" by simp
  show "mountedRef ?s'" using a(2) by simp
  show "\<not> isInitialLoading ?s'" by simp
  show "prefetches_issued ?s' = length (shown ?s')"
    using a(4) by (simp add: prefetches_issued_def)
  show "length (requests ?s') = length (shown ?s') + 1" using a(5) by simp
  show "\<exists>b. bufferPromiseRef ?s' = Some b \<and> b < length (requests ?s')" by simp
  show "awaiting ?s' = None \<and> \<not> isTransitioning ?s' \<or>
     isTransitioning ?s' \<and> (\<exists>p. awaiting ?s' = Some (NextAwait, p) \<and> bufferPromiseRef ?s' = Some p)"
    by simp
  show "\<forall>i<length (requests ?s'). snd (requests ?s' ! i) \<noteq> Rejected"
    using r by (simp add: nth_append)
qed

lemma count_inv_initial: "count_inv PracticeScreen_initial"
  by (simp add: count_inv_def PracticeScreen_initial_def)

lemma count_inv_mount:
  assumes c: "count_inv s"
  shows "count_inv (useEffect_mount s)"
proof (cases "mountedRef s")
  case True
  then show ?thesis using c by (simp add: useEffect_mount_def)
next
  case False
  then have sh: "shown s = []" using count_inv_after(2)[OF c] by blast
  note b = count_inv_before[OF c sh]
  have r: "requests s = []" "awaiting s = None" using b(6)[OF False] by simp_all
  have eq: "useEffect_mount s =
      s\<lparr>mountedRef := True, isInitialLoading := True, requests := [(Initial, Pending)],
        awaiting := Some (InitAwait, 0)\<rparr>"
    using False r by (simp add: useEffect_mount_def generateSentence_def)
  show ?thesis unfolding eq
    by (rule count_inv_beforeI) (use sh b in simp_all)
qed

lemma count_inv_handleNext:
  assumes c: "count_inv s" and en: "\<not> isInitialLoading s" "\<not> isTransitioning s"
  shows "count_inv (handleNextSentence s)"
proof -
  have sh: "shown s \<noteq> []" using count_inv_before(2)[OF c] en(1) by blast
  note a = count_inv_after[OF c sh] and r = count_inv_no_rejected[OF c]
  from a(6) obtain b where b: "bufferPromiseRef s = Some b" "b < length (requests s)" by blast
  have aw: "awaiting s = None" using a(7) en(2) by blast
  show ?thesis
  proof (cases "snd (requests s ! b)")
    case Pending
    have eq: "handleNextSentence s =
        s\<lparr>error := False, isTransitioning := True, awaiting := Some (NextAwait, b)\<rparr>"
      using b Pending by (simp add: handleNextSentence_def)
    show ?thesis unfolding eq
      by (rule count_inv_afterI) (use sh a b r in \<open>simp_all add: prefetches_issued_def\<close>)
  next
    case Fulfilled
    have eq: "handleNextSentence s =
        s\<lparr>requests := requests s @ [(Prefetch, Pending)],
       bufferPromiseRef := Some (length (requests s)), error := False, isTransitioning := False,
       isInitialLoading := False, awaiting := None, currentData := Some b,
       shown := shown s @ [b]\<rparr>"
      using b Fulfilled en aw
      by (simp add: handleNextSentence_def next_resume_def resume_ok_eq)
    show ?thesis unfolding eq by (rule count_inv_advance[OF c sh])
  next
    case Rejected
    then show ?thesis using r b(2) by blast
  qed
qed

lemma count_inv_settle:
  assumes c: "count_inv s"
  shows "count_inv (settle p True s)"
proof (cases "p < length (requests s) \<and> snd (requests s ! p) = Pending")
  case False
  have "settle p True s = s" unfolding settle_def by (rule if_not_P[OF False])
  then show ?thesis using c by simp
next
  case True
  let ?r = "(requests s)[p := (fst (requests s ! p), Fulfilled)]"
  let ?s1 = "s\<lparr>requests := ?r\<rparr>"
  note r = count_inv_no_rejected[OF c]
  have r1: "\<forall>i<length (requests ?s1). snd (requests ?s1 ! i) \<noteq> Rejected"
    using r True by (auto simp: nth_list_update)
  show ?thesis
  proof (cases "shown s = []")
    case sh: True
    note b = count_inv_before[OF c sh]
    have m: "mountedRef s" using b(6) True by fastforce
    have rq: "requests s = [(Initial, Pending)]" and aw: "awaiting s = Some (InitAwait, 0)"
      using b(5)[OF m] by simp_all
    have p0: "p = 0" using True rq by simp
    have eq: "settle p True s =
        s\<lparr>requests := [(Initial, Fulfilled), (Prefetch, Pending)],
          bufferPromiseRef := Some 1, isInitialLoading := False, awaiting := None,
          currentData := Some 0, shown := [0]\<rparr>"
      using p0 rq aw sh by (simp add: settle_def init_resume_def resume_ok_eq)
    show ?thesis unfolding eq
      by (rule count_inv_afterI)
        (use b m in \<open>auto simp: prefetches_issued_def less_Suc_eq\<close>)
  next
    case sh: False
    note a = count_inv_after[OF c sh]
    have c1: "count_inv ?s1"
    proof (rule count_inv_afterI)
      show "shown ?s1 \<noteq> []" using sh by simp
      show "\<not> error ?s1" using a(1) by simp
      show "mountedRef ?s1" using a(2) by simp
      show "\<not> isInitialLoading ?s1" using a(3) by simp
      show "prefetches_issued ?s1 = length (shown ?s1)"
        using a(4) prefetches_issued_update[of s p Fulfilled] by simp
      show "length (requests ?s1) = length (shown ?s1) + 1" using a(5) by simp
      show "\<exists>b. bufferPromiseRef ?s1 = Some b \<and> b < length (requests ?s1)" using a(6) by simp
      show "awaiting ?s1 = None \<and> \<not> isTransitioning ?s1 \<or>
        isTransitioning ?s1 \<and>
        (\<exists>p. awaiting ?s1 = Some (NextAwait, p) \<and> bufferPromiseRef ?s1 = Some p)"
        using a(7) by simp
      show "\<forall>i<length (requests ?s1). snd (requests ?s1 ! i) \<noteq> Rejected" by (rule r1)
    qed
    have sh1: "shown ?s1 \<noteq> []" using sh by simp
    show ?thesis
    proof (cases "awaiting s = Some (NextAwait, p)")
      case aw: True
      have "settle p True s =
          ?s1\<lparr>requests := requests ?s1 @ [(Prefetch, Pending)],
            bufferPromiseRef := Some (length (requests ?s1)), error := False,
            isTransitioning := False, isInitialLoading := False, awaiting := None,
            currentData := Some p, shown := shown ?s1 @ [p]\<rparr>"
        using True aw a(1,3) by (simp add: settle_def next_resume_def resume_ok_eq)
      then show ?thesis using count_inv_advance[OF c1 sh1, of p] by simp
    next
      case naw: False
      have "settle p True s = ?s1"
      proof (cases "awaiting s")
        case None
        then show ?thesis using True by (simp add: settle_def)
      next
        case (Some x)
        then obtain q where "awaiting s = Some (NextAwait, q)" using a(7) by auto
        then show ?thesis using True naw by (simp add: settle_def)
      qed
      then show ?thesis using c1 by simp
    qed
  qed
qed

lemma count_inv_step:
  assumes c: "count_inv s" and ok: "case e of Settle p ok \<Rightarrow> ok | _ \<Rightarrow> True"
  shows "count_inv (step e s)"
proof (cases e)
  case Mount
  then show ?thesis using count_inv_mount[OF c] by simp
next
  case (Settle p b)
  then have "b" using ok by simp
  then show ?thesis using Settle count_inv_settle[OF c, of p] by simp
next
  case ClickNext
  then show ?thesis using c count_inv_handleNext[OF c] by auto
next
  case ClickRetry
  have "\<not> error s" using c unfolding count_inv_def by blast
  then show ?thesis using ClickRetry c by simp
qed

lemma count_inv_run: "no_failure evs \<Longrightarrow> count_inv (run evs)"
proof (induction evs rule: rev_induct)
  case Nil
  then show ?case by (simp add: run_Nil count_inv_initial)
next
  case (snoc e evs)
  then have "no_failure evs" and "case e of Settle p ok \<Rightarrow> ok | _ \<Rightarrow> True"
    by (simp_all add: no_failure_snoc)
  then show ?case using snoc.IH by (simp add: run_snoc count_inv_step)
qed

lemma advances_Suc: "advances (Suc n) = advances n @ [ClickNext, Settle (Suc n) True]"
  by (simp add: advances_def)

lemma no_failure_append: "no_failure (xs @ ys) = (no_failure xs \<and> no_failure ys)"
  by (induction xs rule: no_failure.induct) simp_all

lemma no_failure_advances: "no_failure (advances n)"
  by (induction n) (simp_all add: advances_Suc no_failure_append, simp add: advances_def)

lemma run_append2: "run (evs @ [a, b]) = step b (step a (run evs))"
  by (simp add: run_def)

lemma ready_state_advance:
  "step (Settle (Suc n) True) (step ClickNext (ready_state n)) = ready_state (Suc n)"
proof -
  have nth: "((Initial, Fulfilled) # replicate n (Prefetch, Fulfilled) @ [(Prefetch, Pending)]) ! Suc n
      = (Prefetch, Pending)"
    by (simp add: nth_append)
  have c: "step ClickNext (ready_state n) =
      (ready_state n)\<lparr>error := False, isTransitioning := True,
         awaiting := Some (NextAwait, Suc n)\<rparr>"
    using nth by (simp add: ready_state_def handleNextSentence_def)
  have upd: "((Initial, Fulfilled) # replicate n (Prefetch, Fulfilled) @ [(Prefetch, Pending)])
        [Suc n := (Prefetch, Fulfilled)] =
      (Initial, Fulfilled) # replicate (Suc n) (Prefetch, Fulfilled)"
    by (simp add: list_update_append replicate_append_same)
  show ?thesis
    unfolding c using nth upd
    by (simp add: ready_state_def settle_def next_resume_def resume_ok_eq)
qed

lemma run_advances: "run (advances n) = ready_state n"
proof (induction n)
  case 0
  show ?case
    by (simp add: advances_def run_def ready_state_def PracticeScreen_initial_def
        useEffect_mount_def generateSentence_def settle_def init_resume_def resume_ok_eq)
next
  case (Suc n)
  then show ?case by (simp add: advances_Suc run_append2 ready_state_advance del: step.simps)
qed

text \<open>
  Claim C1 (amended). At no point of any execution, failures included, are
  two prefetch requests pending. After the first successful load exactly one
  prefetch request has been issued. In an execution in which the generator
  rejects nothing and \<open>N + 1\<close> sentences have been shown (the first load and
  \<open>N\<close> advances), exactly \<open>N + 1\<close> prefetch requests and \<open>N + 2\<close>
  generation requests in all have been issued: the first load, the prefetch
  after it, and one prefetch per advance. Such an execution exists for every
  \<open>N\<close>.
\<close>

theorem prefetch_pipeline_counts:
  "prefetches_pending (run evs) \<le> 1
   \<and> shown (run [Mount, Settle 0 True]) = [0]
   \<and> prefetches_issued (run [Mount, Settle 0 True]) = 1
   \<and> (no_failure evs \<and> length (shown (run evs)) = N + 1 \<longrightarrow>
        prefetches_issued (run evs) = N + 1 \<and> length (requests (run evs)) = N + 2)
   \<and> no_failure (advances N) \<and> length (shown (run (advances N))) = N + 1"
proof -
  have first: "run [Mount, Settle 0 True] = ready_state 0"
    using run_advances[of 0] by (simp add: advances_def)
  have a: "shown (run [Mount, Settle 0 True]) = [0]"
    unfolding first by (simp add: ready_state_def)
  have b: "prefetches_issued (run [Mount, Settle 0 True]) = 1"
    unfolding first by (simp add: ready_state_def prefetches_issued_def)
  have c: "prefetches_issued (run evs) = N + 1 \<and> length (requests (run evs)) = N + 2"
    if "no_failure evs" "length (shown (run evs)) = N + 1"
  proof -
    have ci: "count_inv (run evs)" using that(1) by (rule count_inv_run)
    have sh: "shown (run evs) \<noteq> []" using that(2) by auto
    show ?thesis using count_inv_after(4,5)[OF ci sh] that(2) by simp
  qed
  have d: "length (shown (run (advances N))) = N + 1"
    by (simp add: run_advances ready_state_def)
  show ?thesis
    using prefetches_pending_le_one[of evs] a b c d no_failure_advances[of N] by blast
qed

theorem prefetch_pipeline_counts_witness:
  "no_failure [Mount, Settle 0 True, Settle 1 True, ClickNext, ClickNext, Settle 2 True]
   \<and> length (shown (run [Mount, Settle 0 True, Settle 1 True, ClickNext, ClickNext,
         Settle 2 True])) = 2 + 1
   \<and> prefetches_issued (run [Mount, Settle 0 True, Settle 1 True, ClickNext, ClickNext,
         Settle 2 True]) = 2 + 1
   \<and> length (requests (run [Mount, Settle 0 True, Settle 1 True, ClickNext, ClickNext,
         Settle 2 True])) = 2 + 2
   \<and> prefetches_pending (run [Mount, Settle 0 True, Settle 1 True, ClickNext, ClickNext,
         Settle 2 True]) \<le> 1"
proof -
  let ?e = "[Mount, Settle 0 True, Settle 1 True, ClickNext, ClickNext, Settle 2 True]"
  have n: "no_failure ?e" by simp
  have l: "length (shown (run ?e)) = 2 + 1" by code_simp
  note t = prefetch_pipeline_counts[of ?e 2]
  have p: "prefetches_pending (run ?e) \<le> 1" using t by (rule conjunct1)
  have i: "no_failure ?e \<and> length (shown (run ?e)) = 2 + 1 \<longrightarrow>
        prefetches_issued (run ?e) = 2 + 1 \<and> length (requests (run ?e)) = 2 + 2"
    using t by blast
  have c: "prefetches_issued (run ?e) = 2 + 1 \<and> length (requests (run ?e)) = 2 + 2"
    using i n l by blast
  show ?thesis using n l c p by blast
qed

theorem prefetch_pipeline_total_counterexample:
  "no_failure [Mount, Settle 0 True, ClickNext, Settle 1 True]
   \<and> shown (run [Mount, Settle 0 True, ClickNext, Settle 1 True]) = [0, 1]
   \<and> length (requests (run [Mount, Settle 0 True, ClickNext, Settle 1 True])) = 3
   \<and> length (requests (run [Mount, Settle 0 True, ClickNext, Settle 1 True])) \<noteq> 1 + 1"
  by code_simp

end
